theory Spec2Isabelle
  imports Main
begin

section \<open>The list-watch bridge of package prow\<close>

text \<open>
  The Go package \<^verbatim>\<open>prow\<close> adapts a remote source that can only list all jobs
  into the list/watch contract of a shared informer. This theory embeds its three
  parts: the \<^verbatim>\<open>Lister\<close> (reads of the indexed cache), the
  \<^verbatim>\<open>ListWatcher\<close> (List and Watch) and the \<^verbatim>\<open>periodicWatcher\<close>
  (the watch session: one goroutine, one buffered event channel, one done channel
  guarded by a mutex and a flag).

  The sequential functions are HOL functions. The watch session is concurrent, so it
  is a transition system: a state with one program counter per goroutine, and a total
  step function that runs one atomic action of one goroutine, chosen by a label.
  A label whose goroutine is blocked (a full channel, a held mutex, a \<^verbatim>\<open>select\<close>
  none of whose cases is ready) leaves the state as it is. A schedule is a list of
  labels; the theorems hold for every schedule. Time is not measured: that the
  interval has elapsed is the step at which the timer fires. The calls of the logger
  are left out.
\<close>

subsection \<open>Values of the Kubernetes libraries the code builds\<close>

text \<open>\<^verbatim>\<open>schema.GroupResource\<close>.\<close>

record GroupResource =
  Group :: string
  Resource :: string

text \<open>
  The \<^verbatim>\<open>metav1.Status\<close> values the package builds, named after their
  constructors in \<^verbatim>\<open>k8s.io/apimachinery/pkg/api/errors\<close>:
  \<^verbatim>\<open>NewResourceExpired(message)\<close> and \<^verbatim>\<open>NewNotFound(resource, name)\<close>.
\<close>

datatype Status = NewResourceExpired string | NewNotFound GroupResource string

text \<open>
  A Go \<^verbatim>\<open>error\<close>: a \<^verbatim>\<open>*errors.StatusError\<close> built here, or an
  error value made by a collaborator (the indexer, the remote client, the time parser).
\<close>

datatype 'x error = StatusError Status | Foreign 'x

text \<open>\<^verbatim>\<open>watch.EventType\<close> and \<^verbatim>\<open>watch.Event\<close>.\<close>

datatype EventType = Added | Modified | Deleted | Error

record Event =
  Type :: EventType
  Object :: Status

subsection \<open>Lister\<close>

text \<open>
  What the cache holds is an \<^verbatim>\<open>interface{}\<close>: a \<^verbatim>\<open>*Job\<close> or a value of
  another dynamic type (\<^verbatim>\<open>nil\<close> among them), on which the type assertion
  \<^verbatim>\<open>.(*Job)\<close> panics. \<open>'j\<close> is the type \<^verbatim>\<open>Job\<close>.
\<close>

datatype 'j object = JobObj 'j | NotJob

text \<open>A Go call ends by returning or by a panic.\<close>

datatype 'a go = Panics | Returns 'a

text \<open>
  The two methods of the interface \<^verbatim>\<open>cache.Indexer\<close> that the package calls:
  \<^verbatim>\<open>GetByKey(key)\<close> gives \<^verbatim>\<open>(item, exists, err)\<close>, and
  \<^verbatim>\<open>List()\<close> gives every item of the store.
\<close>

record ('j, 'x) Indexer =
  GetByKey :: "string \<Rightarrow> 'j object \<times> bool \<times> 'x error option"
  Items :: "'j object list"

record ('j, 'x) Lister =
  indexer :: "('j, 'x) Indexer"
  resource :: GroupResource

definition NewLister :: "('j, 'x) Indexer \<Rightarrow> ('j, 'x) Lister" where
  "NewLister ix =
     \<lparr>indexer = ix, resource = \<lparr>Group = ''search.openshift.io'', Resource = ''prow''\<rparr>\<rparr>"

text \<open>
  \<^verbatim>\<open>(*Lister).Get\<close>. The result is paired with the lister after the call, which the
  method does not assign to.
\<close>

definition Lister_Get ::
  "('j, 'x) Lister \<Rightarrow> string \<Rightarrow> ('x error + 'j) go \<times> ('j, 'x) Lister" where
  "Lister_Get s id' =
     (case GetByKey (indexer s) id' of
        (obj, exists, Some err) \<Rightarrow> (Returns (Inl err), s)
      | (obj, exists, None) \<Rightarrow>
          if \<not> exists then (Returns (Inl (StatusError (NewNotFound (resource s) id'))), s)
          else (case obj of JobObj j \<Rightarrow> (Returns (Inr j), s) | NotJob \<Rightarrow> (Panics, s)))"

text \<open>
  The callback of \<^verbatim>\<open>(*Lister).List\<close>:
  \<^verbatim>\<open>func(m interface{}) { ret = append(ret, m.(*Job)) }\<close>. Once it has panicked
  nothing more is appended.
\<close>

definition append_job :: "'j object \<Rightarrow> 'j list go \<Rightarrow> 'j list go" where
  "append_job m ret =
     (case ret of
        Panics \<Rightarrow> Panics
      | Returns js \<Rightarrow> (case m of JobObj j \<Rightarrow> Returns (js @ [j]) | NotJob \<Rightarrow> Panics))"

text \<open>
  \<^verbatim>\<open>(*Lister).List\<close>, over the function \<^verbatim>\<open>cache.ListAll\<close> it calls:
  \<open>listAll\<close> gets the indexer, the selector, the callback and the empty
  \<^verbatim>\<open>ret\<close>, and gives \<^verbatim>\<open>ret\<close> after its calls of the callback and its error.
  The method returns \<^verbatim>\<open>ret, err\<close>, unless the callback panicked.
\<close>

definition Lister_List ::
  "(('j, 'x) Indexer \<Rightarrow> 'sel \<Rightarrow> ('j object \<Rightarrow> 'j list go \<Rightarrow> 'j list go) \<Rightarrow> 'j list go \<Rightarrow>
      'j list go \<times> 'x error option) \<Rightarrow>
   ('j, 'x) Lister \<Rightarrow> 'sel \<Rightarrow> ('j list \<times> 'x error option) go" where
  "Lister_List listAll s selector =
     (case listAll (indexer s) selector append_job (Returns []) of
        (Panics, err) \<Rightarrow> Panics
      | (Returns ret, err) \<Rightarrow> Returns (ret, err))"

text \<open>
  Modelled from the spec: \<^verbatim>\<open>cache.ListAll\<close> and the selector are code of
  \<^verbatim>\<open>k8s.io/client-go\<close> and \<^verbatim>\<open>k8s.io/apimachinery\<close> that is not under
  \<^verbatim>\<open>src/\<close>. The spec says of the listing that it returns all cached records that
  match the selector and fails only if the enumeration of the indexer fails. So
  the enumeration walks the items of the store in their order; applying the selector
  to an item either fails (its labels cannot be read: the enumeration ends with
  that error) or says whether the item matches; the callback is called on the
  matching items. \<open>sel\<close> is the selector applied to an item.
\<close>

fun ListAll_items ::
  "('o \<Rightarrow> 'x error + bool) \<Rightarrow> 'o list \<Rightarrow> ('o \<Rightarrow> 'a \<Rightarrow> 'a) \<Rightarrow> 'a \<Rightarrow> 'a \<times> 'x error option" where
  "ListAll_items sel [] appendFn ret = (ret, None)"
| "ListAll_items sel (m # ms) appendFn ret =
     (case sel m of
        Inl err \<Rightarrow> (ret, Some err)
      | Inr True \<Rightarrow> ListAll_items sel ms appendFn (appendFn m ret)
      | Inr False \<Rightarrow> ListAll_items sel ms appendFn ret)"

definition ListAll ::
  "('j, 'x) Indexer \<Rightarrow> ('j object \<Rightarrow> 'x error + bool) \<Rightarrow> ('j object \<Rightarrow> 'a \<Rightarrow> 'a) \<Rightarrow> 'a \<Rightarrow>
   'a \<times> 'x error option" where
  "ListAll store sel appendFn ret = ListAll_items sel (Items store) appendFn ret"

subsection \<open>ListWatcher\<close>

record 'c ListWatcher =
  client :: 'c
  interval :: int

text \<open>
  The remote job tracker as the client reaches it: its state, and how many fetches
  of all jobs it has served.
\<close>

record 'w remote =
  fetches :: nat
  world :: 'w

text \<open>
  One call of \<^verbatim>\<open>(*Client).ListJobs\<close>, which is not under \<^verbatim>\<open>src/\<close>:
  \<open>listJobs\<close> is what the call does to the tracker and what it returns (the list, or
  the error of the network, of the status or of the decoder). The call is counted.
\<close>

definition call_ListJobs ::
  "('c \<Rightarrow> 'w \<Rightarrow> ('x error + 'l) \<times> 'w) \<Rightarrow> 'c \<Rightarrow> 'w remote \<Rightarrow> ('x error + 'l) \<times> 'w remote" where
  "call_ListJobs listJobs c r =
     (case listJobs c (world r) of
        (res, w') \<Rightarrow> (res, \<lparr>fetches = fetches r + 1, world = w'\<rparr>))"

text \<open>\<^verbatim>\<open>metav1.ListOptions\<close>; the fields the package does not read are left open.\<close>

record ListOptions =
  ResourceVersion :: string

text \<open>\<^verbatim>\<open>(*ListWatcher).List\<close>.\<close>

definition ListWatcher_List ::
  "('c \<Rightarrow> 'w \<Rightarrow> ('x error + 'l) \<times> 'w) \<Rightarrow> 'c ListWatcher \<Rightarrow> 'a ListOptions_scheme \<Rightarrow>
   'w remote \<Rightarrow> ('x error + 'l) \<times> 'w remote" where
  "ListWatcher_List listJobs l options r =
     (case call_ListJobs listJobs (client l) r of
        (Inl err, r') \<Rightarrow> (Inl err, r')
      | (Inr list, r') \<Rightarrow> (Inr list, r'))"

subsection \<open>periodicWatcher\<close>

text \<open>Program counters inside \<^verbatim>\<open>stop()\<close>, one per statement.\<close>

datatype stop_pc =
    SLock        \<comment> \<open>\<^verbatim>\<open>w.lock.Lock()\<close>\<close>
  | SCheck       \<comment> \<open>\<^verbatim>\<open>if !w.closed\<close>\<close>
  | SCloseDone   \<comment> \<open>\<^verbatim>\<open>close(w.done)\<close>\<close>
  | SSetClosed   \<comment> \<open>\<^verbatim>\<open>w.closed = true\<close>\<close>
  | SUnlock      \<comment> \<open>the deferred \<^verbatim>\<open>w.lock.Unlock()\<close>\<close>

text \<open>Program counters of the goroutine \<^verbatim>\<open>run()\<close>.\<close>

datatype run_pc =
    RStart       \<comment> \<open>\<^verbatim>\<open>stop := time.After(w.interval)\<close>\<close>
  | RSelect      \<comment> \<open>the \<^verbatim>\<open>select\<close>\<close>
  | RSend        \<comment> \<open>\<^verbatim>\<open>w.ch <- watch.Event{...}\<close>\<close>
  | RStop stop_pc \<comment> \<open>inside \<^verbatim>\<open>w.stop()\<close>\<close>
  | RCloseCh     \<comment> \<open>the deferred \<^verbatim>\<open>close(w.ch)\<close>\<close>
  | RExit

text \<open>Program counters of one call of \<^verbatim>\<open>Stop()\<close>.\<close>

datatype call_pc =
    Idle         \<comment> \<open>not called yet\<close>
  | InStop stop_pc \<comment> \<open>inside \<^verbatim>\<open>w.stop()\<close>\<close>
  | Drain        \<comment> \<open>the deferred \<^verbatim>\<open>for range w.ch {}\<close>\<close>
  | Returned

datatype pid = RunP | StopP nat

datatype timer_state = NotStarted | Running | Fired

text \<open>
  The struct \<^verbatim>\<open>periodicWatcher\<close> with the state of its two channels and its
  mutex, then the state of the goroutines that work on it, then a history of what
  happened (written, never read, by the steps).
\<close>

record ('c, 't) periodicWatcher =
  lw :: "'c ListWatcher"
  ch :: "Event list"          \<comment> \<open>the buffer of \<^verbatim>\<open>w.ch\<close>, oldest first\<close>
  ch_closed :: bool
  interval :: int
  rv :: 't
  lock :: "pid option"        \<comment> \<open>the holder of \<^verbatim>\<open>w.lock\<close>\<close>
  done_closed :: bool         \<comment> \<open>\<^verbatim>\<open>w.done\<close> is only ever closed\<close>
  closed :: bool
  timer :: timer_state        \<comment> \<open>the channel of \<^verbatim>\<open>time.After\<close>\<close>
  run :: run_pc
  calls :: "call_pc list"     \<comment> \<open>the calls of \<^verbatim>\<open>Stop()\<close>\<close>
  panicked :: bool
  sent :: "Event list"        \<comment> \<open>every event sent on \<^verbatim>\<open>w.ch\<close>\<close>
  delivered :: "Event list"   \<comment> \<open>every event a reader of \<^verbatim>\<open>ResultChan()\<close> got\<close>
  ch_closes :: nat            \<comment> \<open>how often \<^verbatim>\<open>w.ch\<close> was closed\<close>
  done_closes :: nat          \<comment> \<open>how often \<^verbatim>\<open>w.done\<close> was closed\<close>

text \<open>\<^verbatim>\<open>make(chan watch.Event, 100)\<close>.\<close>

definition ch_cap :: nat where
  "ch_cap = 100"

text \<open>
  The session \<^verbatim>\<open>newPeriodicWatcher\<close> builds: the struct literal with its two fresh
  channels, and the goroutine of \<^verbatim>\<open>go pw.run()\<close>, which stands at its first
  statement. No call of \<^verbatim>\<open>Stop()\<close> exists yet.
\<close>

definition new_session ::
  "'c ListWatcher \<Rightarrow> int \<Rightarrow> 't \<Rightarrow> ('c, 't) periodicWatcher" where
  "new_session l i r =
     \<lparr>lw = l, ch = [], ch_closed = False, interval = i, rv = r, lock = None,
      done_closed = False, closed = False, timer = NotStarted, run = RStart,
      calls = [], panicked = False, sent = [], delivered = [],
      ch_closes = 0, done_closes = 0\<rparr>"

text \<open>
  \<^verbatim>\<open>newPeriodicWatcher\<close> on the sessions that exist: it allocates one more and
  returns the pointer to it, here its index.
\<close>

definition newPeriodicWatcher ::
  "'c ListWatcher \<Rightarrow> int \<Rightarrow> 't \<Rightarrow> ('c, 't) periodicWatcher list \<Rightarrow>
   nat \<times> ('c, 't) periodicWatcher list" where
  "newPeriodicWatcher l i r ws = (length ws, ws @ [new_session l i r])"

text \<open>
  A session together with \<open>n\<close> callers, each of which calls \<^verbatim>\<open>Stop()\<close> once, at a
  time of its choice. With \<open>n = 0\<close> the session is never stopped.
\<close>

definition session :: "nat \<Rightarrow> 'c ListWatcher \<Rightarrow> int \<Rightarrow> 't \<Rightarrow> ('c, 't) periodicWatcher" where
  "session n l i r = (new_session l i r)\<lparr>calls := replicate n Idle\<rparr>"

text \<open>
  The event of the expiry branch. \<open>fmt\<close> is \<^verbatim>\<open>time.Duration.String\<close>, which
  \<^verbatim>\<open>%s\<close> applies to \<^verbatim>\<open>w.interval\<close>.
\<close>

definition expired_event :: "(int \<Rightarrow> string) \<Rightarrow> int \<Rightarrow> Event" where
  "expired_event fmt i =
     \<lparr>Type = Error,
      Object = NewResourceExpired (''watch closed after '' @ fmt i @ '', resync required'')\<rparr>"

text \<open>
  One statement of \<^verbatim>\<open>stop()\<close>, run by \<open>p\<close>. The result is the next program
  counter (\<open>None\<close> when \<^verbatim>\<open>stop()\<close> returns) and the new state. Closing a closed
  channel and unlocking a free mutex stop the program.
\<close>

fun stop_step ::
  "pid \<Rightarrow> stop_pc \<Rightarrow> ('c, 't) periodicWatcher \<Rightarrow> stop_pc option \<times> ('c, 't) periodicWatcher" where
  "stop_step p SLock s =
     (if lock s = None then (Some SCheck, s\<lparr>lock := Some p\<rparr>) else (Some SLock, s))"
| "stop_step p SCheck s =
     (if \<not> closed s then (Some SCloseDone, s) else (Some SUnlock, s))"
| "stop_step p SCloseDone s =
     (if done_closed s then (Some SCloseDone, s\<lparr>panicked := True\<rparr>)
      else (Some SSetClosed, s\<lparr>done_closed := True, done_closes := done_closes s + 1\<rparr>))"
| "stop_step p SSetClosed s = (Some SUnlock, s\<lparr>closed := True\<rparr>)"
| "stop_step p SUnlock s =
     (if lock s = None then (Some SUnlock, s\<lparr>panicked := True\<rparr>)
      else (None, s\<lparr>lock := None\<rparr>))"

datatype sel_case = CaseTimer | CaseDone

text \<open>
  One statement of \<^verbatim>\<open>run()\<close>. At the \<^verbatim>\<open>select\<close>, \<open>c\<close> is the case Go
  chooses; it must be ready (the timer has fired, \<^verbatim>\<open>w.done\<close> is closed), and when
  both are ready either may be chosen.
\<close>

definition run_step ::
  "(int \<Rightarrow> string) \<Rightarrow> sel_case \<Rightarrow> ('c, 't) periodicWatcher \<Rightarrow> ('c, 't) periodicWatcher" where
  "run_step fmt c s =
     (case run s of
        RStart \<Rightarrow> s\<lparr>timer := Running, run := RSelect\<rparr>
      | RSelect \<Rightarrow>
          (case c of
             CaseTimer \<Rightarrow> if timer s = Fired then s\<lparr>run := RSend\<rparr> else s
           | CaseDone \<Rightarrow> if done_closed s then s\<lparr>run := RCloseCh\<rparr> else s)
      | RSend \<Rightarrow>
          if ch_closed s then s\<lparr>panicked := True\<rparr>
          else if length (ch s) < ch_cap
          then s\<lparr>ch := ch s @ [expired_event fmt (interval s)],
                 sent := sent s @ [expired_event fmt (interval s)],
                 run := RStop SLock\<rparr>
          else s
      | RStop pc \<Rightarrow>
          (case stop_step RunP pc s of
             (Some pc', s') \<Rightarrow> s'\<lparr>run := RStop pc'\<rparr>
           | (None, s') \<Rightarrow> s'\<lparr>run := RCloseCh\<rparr>)
      | RCloseCh \<Rightarrow>
          if ch_closed s then s\<lparr>panicked := True\<rparr>
          else s\<lparr>ch_closed := True, ch_closes := ch_closes s + 1, run := RExit\<rparr>
      | RExit \<Rightarrow> s)"

text \<open>
  One statement of the \<open>i\<close>-th call of \<^verbatim>\<open>Stop()\<close>: the call itself, then
  \<^verbatim>\<open>w.stop()\<close>, then the deferred loop, which receives and drops events until
  the channel is closed and empty.
\<close>

definition call_step :: "nat \<Rightarrow> ('c, 't) periodicWatcher \<Rightarrow> ('c, 't) periodicWatcher" where
  "call_step i s =
     (if i < length (calls s) then
        (case calls s ! i of
           Idle \<Rightarrow> s\<lparr>calls := (calls s)[i := InStop SLock]\<rparr>
         | InStop pc \<Rightarrow>
             (case stop_step (StopP i) pc s of
                (Some pc', s') \<Rightarrow> s'\<lparr>calls := (calls s')[i := InStop pc']\<rparr>
              | (None, s') \<Rightarrow> s'\<lparr>calls := (calls s')[i := Drain]\<rparr>)
         | Drain \<Rightarrow>
             (case ch s of
                e # es \<Rightarrow> s\<lparr>ch := es\<rparr>
              | [] \<Rightarrow> if ch_closed s then s\<lparr>calls := (calls s)[i := Returned]\<rparr> else s)
         | Returned \<Rightarrow> s)
      else s)"

text \<open>A reader of \<^verbatim>\<open>ResultChan()\<close> receives the oldest buffered event.\<close>

definition recv_step :: "('c, 't) periodicWatcher \<Rightarrow> ('c, 't) periodicWatcher" where
  "recv_step s =
     (case ch s of e # es \<Rightarrow> s\<lparr>ch := es, delivered := delivered s @ [e]\<rparr> | [] \<Rightarrow> s)"

text \<open>The interval elapses: the timer started by \<^verbatim>\<open>time.After\<close> fires.\<close>

definition tick_step :: "('c, 't) periodicWatcher \<Rightarrow> ('c, 't) periodicWatcher" where
  "tick_step s = (if timer s = Running then s\<lparr>timer := Fired\<rparr> else s)"

datatype label = Tick | Run sel_case | Stop nat | Recv

definition step ::
  "(int \<Rightarrow> string) \<Rightarrow> label \<Rightarrow> ('c, 't) periodicWatcher \<Rightarrow> ('c, 't) periodicWatcher" where
  "step fmt l s =
     (if panicked s then s
      else case l of
        Tick \<Rightarrow> tick_step s
      | Run c \<Rightarrow> run_step fmt c s
      | Stop i \<Rightarrow> call_step i s
      | Recv \<Rightarrow> recv_step s)"

fun exec ::
  "(int \<Rightarrow> string) \<Rightarrow> label list \<Rightarrow> ('c, 't) periodicWatcher \<Rightarrow> ('c, 't) periodicWatcher" where
  "exec fmt [] s = s"
| "exec fmt (l # ls) s = exec fmt ls (step fmt l s)"

subsection \<open>Watch\<close>

text \<open>
  \<^verbatim>\<open>(*ListWatcher).Watch\<close>, over \<open>unmarshal\<close>, the method
  \<^verbatim>\<open>UnmarshalQueryParameter\<close> of \<^verbatim>\<open>metav1.Time\<close> it calls on the token. The
  sessions that exist are passed through; the watch handle is the index of the new one.
\<close>

definition ListWatcher_Watch ::
  "(string \<Rightarrow> 'x error + 't) \<Rightarrow> 'c ListWatcher \<Rightarrow> 'a ListOptions_scheme \<Rightarrow>
   ('c, 't) periodicWatcher list \<Rightarrow> ('x error + nat) \<times> ('c, 't) periodicWatcher list" where
  "ListWatcher_Watch unmarshal l options ws =
     (case unmarshal (ResourceVersion options) of
        Inl err \<Rightarrow> (Inl err, ws)
      | Inr r \<Rightarrow>
          (case newPeriodicWatcher l (ListWatcher.interval l) r ws of
             (w, ws') \<Rightarrow> (Inr w, ws')))"

text \<open>A \<^verbatim>\<open>metav1.Time\<close>: the zero time, or a parsed point in time.\<close>

datatype 't Time = ZeroTime | Parsed 't

text \<open>
  \<^verbatim>\<open>(*metav1.Time).UnmarshalQueryParameter\<close>, the method that \<^verbatim>\<open>Watch\<close> calls
  on the token. It is code of the library \<^verbatim>\<open>k8s.io/apimachinery\<close> and not under
  \<^verbatim>\<open>src/\<close>. It is written here as the library has it, which is more than the spec
  says:
  \<^verbatim>\<open>
  func (t *Time) UnmarshalQueryParameter(str string) error {
      if len(str) == 0 {
          t.Time = time.Time{}
          return nil
      }
      // Tolerate requests from older clients that used JSON serialization to build query params
      if len(str) == 4 && str == "null" {
          t.Time = time.Time{}
          return nil
      }
      pt, err := time.Parse(time.RFC3339, str)
      if err != nil {
          return err
      }
      t.Time = pt.Local()
      return nil
  }
  \<close>
  The spec has only the last step: the token must parse as a timestamp and is
  rejected otherwise. That step is the parameter \<open>parse\<close>
  (\<^verbatim>\<open>time.Parse(time.RFC3339, str)\<close>, then \<^verbatim>\<open>Local()\<close>). The two tests before
  it, which take the empty token and \<^verbatim>\<open>null\<close> for the zero time, are the
  library's and are not in the spec.
\<close>

definition UnmarshalQueryParameter ::
  "(string \<Rightarrow> 'x error + 't) \<Rightarrow> string \<Rightarrow> 'x error + 't Time" where
  "UnmarshalQueryParameter parse str =
     (if length str = 0 then Inr ZeroTime
      else if length str = 4 \<and> str = ''null'' then Inr ZeroTime
      else (case parse str of Inl err \<Rightarrow> Inl err | Inr pt \<Rightarrow> Inr (Parsed pt)))"

text \<open>
  How many steps of a schedule did something: a step that leaves the state as it is
  was blocked (or its goroutine had finished).
\<close>

fun effective ::
  "(int \<Rightarrow> string) \<Rightarrow> label list \<Rightarrow> ('c, 't) periodicWatcher \<Rightarrow> nat" where
  "effective fmt [] s = 0"
| "effective fmt (l # ls) s =
     (if step fmt l s = s then 0 else 1) + effective fmt ls (step fmt l s)"

text \<open>Nothing can move any more: every goroutine is blocked or has finished.\<close>

definition quiescent :: "(int \<Rightarrow> string) \<Rightarrow> ('c, 't) periodicWatcher \<Rightarrow> bool" where
  "quiescent fmt s \<longleftrightarrow> (\<forall>l. step fmt l s = s)"

subsection \<open>The invariant of the session\<close>

text \<open>Where a goroutine stands inside \<^verbatim>\<open>stop()\<close>, if it is there.\<close>

definition rpc :: "run_pc \<Rightarrow> stop_pc option" where
  "rpc r = (case r of RStop pc \<Rightarrow> Some pc | _ \<Rightarrow> None)"

definition cpc :: "call_pc \<Rightarrow> stop_pc option" where
  "cpc c = (case c of InStop pc \<Rightarrow> Some pc | _ \<Rightarrow> None)"

fun pcs :: "run_pc \<Rightarrow> call_pc list \<Rightarrow> pid \<Rightarrow> stop_pc option" where
  "pcs r cs RunP = rpc r"
| "pcs r cs (StopP i) = (if i < length cs then cpc (cs ! i) else None)"

text \<open>Between \<^verbatim>\<open>Lock()\<close> and \<^verbatim>\<open>Unlock()\<close>.\<close>

definition crit :: "stop_pc option \<Rightarrow> bool" where
  "crit x = (case x of None \<Rightarrow> False | Some pc \<Rightarrow> pc \<noteq> SLock)"

text \<open>The mutex is held by exactly the goroutine that is between Lock and Unlock.\<close>

definition lock_ok :: "pid option \<Rightarrow> (pid \<Rightarrow> stop_pc option) \<Rightarrow> bool" where
  "lock_ok l f \<longleftrightarrow> (\<forall>p. (l = Some p) = crit (f p))"

definition hp :: "pid option \<Rightarrow> (pid \<Rightarrow> stop_pc option) \<Rightarrow> stop_pc option" where
  "hp l f = (case l of None \<Rightarrow> None | Some p \<Rightarrow> f p)"

text \<open>
  \<^verbatim>\<open>w.done\<close> is closed and \<^verbatim>\<open>w.closed\<close> is set together, but for the holder
  of the mutex who stands between the two statements.
\<close>

definition flags_ok :: "stop_pc option \<Rightarrow> bool \<Rightarrow> bool \<Rightarrow> bool" where
  "flags_ok h d c =
     (case h of
        Some SCloseDone \<Rightarrow> \<not> d \<and> \<not> c
      | Some SSetClosed \<Rightarrow> d \<and> \<not> c
      | Some SUnlock \<Rightarrow> d \<and> c
      | _ \<Rightarrow> d = c)"

text \<open>What holds at each statement of \<^verbatim>\<open>run()\<close>.\<close>

definition run_ok ::
  "Event \<Rightarrow> run_pc \<Rightarrow> timer_state \<Rightarrow> Event list \<Rightarrow> bool \<Rightarrow> bool \<Rightarrow> bool" where
  "run_ok ev r t snt cc d =
     (case r of
        RStart \<Rightarrow> t = NotStarted \<and> snt = [] \<and> \<not> cc
      | RSelect \<Rightarrow> t \<noteq> NotStarted \<and> snt = [] \<and> \<not> cc
      | RSend \<Rightarrow> t = Fired \<and> snt = [] \<and> \<not> cc
      | RStop pc \<Rightarrow> t = Fired \<and> snt = [ev] \<and> \<not> cc
      | RCloseCh \<Rightarrow> t \<noteq> NotStarted \<and> (snt = [] \<or> snt = [ev] \<and> t = Fired) \<and> \<not> cc \<and> d
      | RExit \<Rightarrow> t \<noteq> NotStarted \<and> (snt = [] \<or> snt = [ev] \<and> t = Fired) \<and> cc \<and> d)"

text \<open>What holds at each statement of a call of \<^verbatim>\<open>Stop()\<close>.\<close>

definition call_ok :: "bool \<Rightarrow> run_pc \<Rightarrow> Event list \<Rightarrow> call_pc \<Rightarrow> bool" where
  "call_ok c r b k =
     (case k of
        Drain \<Rightarrow> c
      | Returned \<Rightarrow> c \<and> r = RExit \<and> b = []
      | _ \<Rightarrow> True)"

definition inv :: "(int \<Rightarrow> string) \<Rightarrow> ('c, 't) periodicWatcher \<Rightarrow> bool" where
  "inv fmt s \<longleftrightarrow>
     \<not> panicked s \<and>
     lock_ok (lock s) (pcs (run s) (calls s)) \<and>
     flags_ok (hp (lock s) (pcs (run s) (calls s))) (done_closed s) (closed s) \<and>
     run_ok (expired_event fmt (interval s)) (run s) (timer s) (sent s) (ch_closed s) (done_closed s) \<and>
     (\<forall>k \<in> set (calls s). call_ok (closed s) (run s) (ch s) k) \<and>
     length (ch s) + length (delivered s) \<le> length (sent s) \<and>
     done_closes s = (if done_closed s then 1 else 0) \<and>
     ch_closes s = (if ch_closed s then 1 else 0)"



text \<open>A measure that every step that does something makes smaller.\<close>

fun stop_rank :: "stop_pc \<Rightarrow> nat" where
  "stop_rank SLock = 6"
| "stop_rank SCheck = 5"
| "stop_rank SCloseDone = 4"
| "stop_rank SSetClosed = 3"
| "stop_rank SUnlock = 2"

definition srank :: "stop_pc option \<Rightarrow> nat" where
  "srank x = (case x of None \<Rightarrow> 1 | Some pc \<Rightarrow> stop_rank pc)"

fun run_rank :: "run_pc \<Rightarrow> nat" where
  "run_rank RStart = 10"
| "run_rank RSelect = 9"
| "run_rank RSend = 8"
| "run_rank (RStop pc) = stop_rank pc"
| "run_rank RCloseCh = 1"
| "run_rank RExit = 0"

fun call_rank :: "call_pc \<Rightarrow> nat" where
  "call_rank Idle = 7"
| "call_rank (InStop pc) = stop_rank pc"
| "call_rank Drain = 1"
| "call_rank Returned = 0"

fun timer_rank :: "timer_state \<Rightarrow> nat" where
  "timer_rank Fired = 0"
| "timer_rank _ = 1"

definition rank :: "('c, 't) periodicWatcher \<Rightarrow> nat" where
  "rank s =
     run_rank (run s) + sum_list (map call_rank (calls s)) + timer_rank (timer s) + length (ch s)"

section \<open>Lister and ListWatcher\<close>

lemma ListAll_items_all:
  assumes "\<forall>m \<in> set ms. \<exists>b. sel m = Inr b"
    and "\<forall>m \<in> set ms. sel m = Inr True \<longrightarrow> (\<exists>j. m = JobObj j)"
  shows "\<exists>js'. ListAll_items sel ms append_job (Returns js) = (Returns (js @ js'), None) \<and>
               map JobObj js' = filter (\<lambda>m. sel m = Inr True) ms"
  using assms
proof (induction ms arbitrary: js)
  case Nil
  then show ?case by simp
next
  case (Cons m ms)
  from Cons.prems(1) obtain b where b: "sel m = Inr b" by auto
  show ?case
  proof (cases b)
    case False
    from Cons.IH [of js] Cons.prems obtain js' where
      "ListAll_items sel ms append_job (Returns js) = (Returns (js @ js'), None)"
      "map JobObj js' = filter (\<lambda>m. sel m = Inr True) ms" by auto
    then show ?thesis using b False by auto
  next
    case True
    with b Cons.prems(2) obtain j where j: "m = JobObj j" by auto
    from Cons.IH [of "js @ [j]"] Cons.prems obtain js' where
      "ListAll_items sel ms append_job (Returns (js @ [j])) = (Returns ((js @ [j]) @ js'), None)"
      "map JobObj js' = filter (\<lambda>m. sel m = Inr True) ms" by auto
    then have "ListAll_items sel (m # ms) append_job (Returns js) = (Returns (js @ (j # js')), None) \<and>
        map JobObj (j # js') = filter (\<lambda>m. sel m = Inr True) (m # ms)"
      using b True j by (simp add: append_job_def)
    then show ?thesis by blast
  qed
qed

lemma ListAll_items_error:
  "ListAll_items sel ms appendFn ret = (ret', Some e) \<Longrightarrow> \<exists>m \<in> set ms. sel m = Inl e"
proof (induction ms arbitrary: ret)
  case Nil
  then show ?case by simp
next
  case (Cons m ms)
  then show ?case by (auto split: sum.splits bool.splits)
qed

text \<open>
  C6. \<^verbatim>\<open>(*ListWatcher).List\<close> does not look at its options; it makes exactly one
  fetch of all jobs through the client; and what it returns is what the fetch
  returned: the list, or the error of the fetch as it is.
\<close>

theorem ListWatcher_List_one_fetch:
  "ListWatcher_List listJobs l options r = ListWatcher_List listJobs l options' r \<and>
   fetches (snd (ListWatcher_List listJobs l options r)) = fetches r + 1 \<and>
   fst (ListWatcher_List listJobs l options r) = fst (listJobs (client l) (world r)) \<and>
   world (snd (ListWatcher_List listJobs l options r)) = snd (listJobs (client l) (world r))"
  by (cases "listJobs (client l) (world r)")
    (auto simp: ListWatcher_List_def call_ListJobs_def split: sum.splits)

text \<open>
  C7. \<^verbatim>\<open>(*Lister).Get\<close>: when the indexer has a job under the key, that job is
  returned as it is; when the indexer has nothing under the key, the error is
  the not-found status built from the resource of the lister (group
  \<^verbatim>\<open>search.openshift.io\<close>, resource \<^verbatim>\<open>prow\<close>) and the key; when the lookup of
  the indexer gives an error, that error is returned as it is; and the lister,
  with its indexer, is the same after the call.
\<close>

theorem Lister_Get_cases:
  "(GetByKey (indexer s) k = (JobObj j, True, None) \<longrightarrow>
      fst (Lister_Get s k) = Returns (Inr j)) \<and>
   (GetByKey (indexer s) k = (obj, False, None) \<longrightarrow>
      fst (Lister_Get s k) = Returns (Inl (StatusError (NewNotFound (resource s) k)))) \<and>
   (GetByKey (indexer s) k = (obj', ex, Some err) \<longrightarrow>
      fst (Lister_Get s k) = Returns (Inl err)) \<and>
   snd (Lister_Get s k) = s \<and>
   resource (NewLister ix) = \<lparr>Group = ''search.openshift.io'', Resource = ''prow''\<rparr>"
  by (auto simp: Lister_Get_def NewLister_def split: prod.splits option.splits object.splits)

theorem Lister_Get_cases_witness:
  "fst (Lister_Get (NewLister \<lparr>GetByKey = (\<lambda>k. if k = ''b'' then (JobObj (7::nat), True, None)
        else if k = ''x'' then (NotJob, False, Some (Foreign ''closed'')) else (NotJob, False, None)),
      Items = [JobObj 7]\<rparr>) ''b'') = Returns (Inr 7) \<and>
   fst (Lister_Get (NewLister \<lparr>GetByKey = (\<lambda>k. if k = ''b'' then (JobObj (7::nat), True, None)
        else if k = ''x'' then (NotJob, False, Some (Foreign ''closed'')) else (NotJob, False, None)),
      Items = [JobObj 7]\<rparr>) ''c'') =
     Returns (Inl (StatusError (NewNotFound \<lparr>Group = ''search.openshift.io'', Resource = ''prow''\<rparr> ''c''))) \<and>
   fst (Lister_Get (NewLister \<lparr>GetByKey = (\<lambda>k. if k = ''b'' then (JobObj (7::nat), True, None)
        else if k = ''x'' then (NotJob, False, Some (Foreign ''closed'')) else (NotJob, False, None)),
      Items = [JobObj 7]\<rparr>) ''x'') = Returns (Inl (Foreign ''closed''))"
proof -
  let ?ix = "\<lparr>GetByKey = (\<lambda>k. if k = ''b'' then (JobObj (7::nat), True, None)
        else if k = ''x'' then (NotJob, False, Some (Foreign ''closed'')) else (NotJob, False, None)),
      Items = [JobObj 7]\<rparr>"
  have a: "GetByKey (indexer (NewLister ?ix)) ''b'' = (JobObj 7, True, None)"
    by (simp add: NewLister_def)
  have b: "GetByKey (indexer (NewLister ?ix)) ''c'' = (NotJob, False, None)"
    by (simp add: NewLister_def)
  have c: "GetByKey (indexer (NewLister ?ix)) ''x'' = (NotJob, False, Some (Foreign ''closed''))"
    by (simp add: NewLister_def)
  have r: "resource (NewLister ?ix) = \<lparr>Group = ''search.openshift.io'', Resource = ''prow''\<rparr>"
    by (simp add: NewLister_def)
  show ?thesis
    using Lister_Get_cases [of "NewLister ?ix" "''b''" 7 NotJob NotJob False "Foreign ''closed''" ?ix]
      Lister_Get_cases [of "NewLister ?ix" "''c''" 7 NotJob NotJob False "Foreign ''closed''" ?ix]
      Lister_Get_cases [of "NewLister ?ix" "''x''" 7 NotJob NotJob False "Foreign ''closed''" ?ix]
      a b c r
    by simp
qed

text \<open>
  C5 as the claim states it fails: the empty string and the four characters
  \<^verbatim>\<open>null\<close> are no encoding of a timestamp (here the parser of timestamps
  rejects both, as it rejects everything but one RFC 3339 string), yet
  \<^verbatim>\<open>Watch\<close> returns no error for them: it builds a session from the zero time
  and starts its goroutine.
\<close>

theorem Watch_invalid_token_counterexample:
  "(if '''' = ''2026-10-30T21:28:00Z'' then Inr (1::nat) else Inl (Foreign ''parsing time'')) =
     Inl (Foreign ''parsing time'') \<and>
   ListWatcher_Watch
     (UnmarshalQueryParameter
        (\<lambda>str. if str = ''2026-10-30T21:28:00Z'' then Inr (1::nat) else Inl (Foreign ''parsing time'')))
     \<lparr>client = (), interval = 50000000\<rparr> \<lparr>ResourceVersion = ''''\<rparr> [] =
     (Inr 0,
      [\<lparr>lw = \<lparr>client = (), interval = 50000000\<rparr>, ch = [], ch_closed = False,
        interval = 50000000, rv = ZeroTime, lock = None, done_closed = False, closed = False,
        timer = NotStarted, run = RStart, calls = [], panicked = False, sent = [],
        delivered = [], ch_closes = 0, done_closes = 0\<rparr>]) \<and>
   ListWatcher_Watch
     (UnmarshalQueryParameter
        (\<lambda>str. if str = ''2026-10-30T21:28:00Z'' then Inr (1::nat) else Inl (Foreign ''parsing time'')))
     \<lparr>client = (), interval = 50000000\<rparr> \<lparr>ResourceVersion = ''null''\<rparr> [] =
     (Inr 0,
      [\<lparr>lw = \<lparr>client = (), interval = 50000000\<rparr>, ch = [], ch_closed = False,
        interval = 50000000, rv = ZeroTime, lock = None, done_closed = False, closed = False,
        timer = NotStarted, run = RStart, calls = [], panicked = False, sent = [],
        delivered = [], ch_closes = 0, done_closes = 0\<rparr>])"
  by (simp add: ListWatcher_Watch_def UnmarshalQueryParameter_def newPeriodicWatcher_def
      new_session_def)

text \<open>
  C5, as the code has it. \<^verbatim>\<open>Watch\<close> returns the error of the parser, and the
  sessions that exist are the same as before (no session was built, no goroutine
  was started), exactly for the tokens that \<^verbatim>\<open>UnmarshalQueryParameter\<close> rejects:
  those that are not empty, are not \<^verbatim>\<open>null\<close> and do not parse as a timestamp.
  For a token that parses, and for the empty token and \<^verbatim>\<open>null\<close> (taken as the
  zero time), exactly one session is added behind the existing ones and its index
  is returned. That session is the struct \<^verbatim>\<open>newPeriodicWatcher\<close> fills in, with
  the interval of the ListWatcher and the time: both channels open and empty, the
  mutex free, the flag unset, nothing panicked; and its goroutine has been started:
  it stands at the first statement of \<^verbatim>\<open>run()\<close>, and its first step starts the
  timer and reaches the \<^verbatim>\<open>select\<close>.
\<close>

theorem ListWatcher_Watch_token_cases:
  "(str \<noteq> '''' \<and> str \<noteq> ''null'' \<and> parse str = Inl err \<longrightarrow>
      ListWatcher_Watch (UnmarshalQueryParameter parse) l (options\<lparr>ResourceVersion := str\<rparr>) ws =
        (Inl err, ws)) \<and>
   (str \<noteq> '''' \<and> str \<noteq> ''null'' \<and> parse str = Inr pt \<longrightarrow>
      ListWatcher_Watch (UnmarshalQueryParameter parse) l (options\<lparr>ResourceVersion := str\<rparr>) ws =
        (Inr (length ws), ws @ [new_session l (ListWatcher.interval l) (Parsed pt)])) \<and>
   (str = '''' \<or> str = ''null'' \<longrightarrow>
      ListWatcher_Watch (UnmarshalQueryParameter parse) l (options\<lparr>ResourceVersion := str\<rparr>) ws =
        (Inr (length ws), ws @ [new_session l (ListWatcher.interval l) ZeroTime])) \<and>
   new_session l i r =
     \<lparr>lw = l, ch = [], ch_closed = False, interval = i, rv = r, lock = None,
      done_closed = False, closed = False, timer = NotStarted, run = RStart, calls = [],
      panicked = False, sent = [], delivered = [], ch_closes = 0, done_closes = 0\<rparr> \<and>
   step fmt (Run c) (new_session l i r) = (new_session l i r)\<lparr>timer := Running, run := RSelect\<rparr>"
  by (auto simp: ListWatcher_Watch_def UnmarshalQueryParameter_def newPeriodicWatcher_def
      new_session_def step_def run_step_def)

theorem ListWatcher_Watch_token_cases_witness:
  "ListWatcher_Watch
     (UnmarshalQueryParameter
        (\<lambda>str. if str = ''2026-10-30T21:28:00Z'' then Inr (1::nat) else Inl (Foreign ''parsing time'')))
     \<lparr>client = (), interval = 50000000\<rparr> \<lparr>ResourceVersion = ''yesterday''\<rparr> [] =
     (Inl (Foreign ''parsing time''), []) \<and>
   ListWatcher_Watch
     (UnmarshalQueryParameter
        (\<lambda>str. if str = ''2026-10-30T21:28:00Z'' then Inr (1::nat) else Inl (Foreign ''parsing time'')))
     \<lparr>client = (), interval = 50000000\<rparr> \<lparr>ResourceVersion = ''2026-10-30T21:28:00Z''\<rparr> [] =
     (Inr 0, [new_session \<lparr>client = (), interval = 50000000\<rparr> 50000000 (Parsed 1)]) \<and>
   ListWatcher_Watch
     (UnmarshalQueryParameter
        (\<lambda>str. if str = ''2026-10-30T21:28:00Z'' then Inr (1::nat) else Inl (Foreign ''parsing time'')))
     \<lparr>client = (), interval = 50000000\<rparr> \<lparr>ResourceVersion = ''null''\<rparr> [] =
     (Inr 0, [new_session \<lparr>client = (), interval = 50000000\<rparr> 50000000 ZeroTime])"
proof -
  let ?p = "\<lambda>str. if str = ''2026-10-30T21:28:00Z'' then Inr (1::nat)
     else (Inl (Foreign ''parsing time'') :: string error + nat)"
  let ?l = "\<lparr>client = (), interval = 50000000\<rparr>"
  let ?o = "\<lparr>ResourceVersion = ''''\<rparr>"
  have a: "?p ''yesterday'' = Inl (Foreign ''parsing time'')"
    "?p ''2026-10-30T21:28:00Z'' = Inr 1" by simp_all
  show ?thesis
    using
      ListWatcher_Watch_token_cases [of "''yesterday''" ?p "Foreign ''parsing time''" ?l ?o "[]" 1
        50000000 ZeroTime "\<lambda>d. ''50ms''" CaseTimer, THEN conjunct1]
      ListWatcher_Watch_token_cases [of "''2026-10-30T21:28:00Z''" ?p "Foreign ''parsing time''" ?l ?o
        "[]" 1 50000000 ZeroTime "\<lambda>d. ''50ms''" CaseTimer, THEN conjunct2, THEN conjunct1]
      ListWatcher_Watch_token_cases [of "''null''" ?p "Foreign ''parsing time''" ?l ?o "[]" 1
        50000000 ZeroTime "\<lambda>d. ''50ms''" CaseTimer, THEN conjunct2, THEN conjunct2,
        THEN conjunct1]
      a
    by simp
qed

text \<open>
  C9. \<^verbatim>\<open>Watch\<close> with the empty string as resource version returns no error,
  whatever the parser of timestamps does with it: the empty token is taken as the
  zero time, exactly one session is added behind the existing ones and its index
  is returned. The session is the struct \<^verbatim>\<open>newPeriodicWatcher\<close> fills in from
  the interval of the ListWatcher and the zero time, nothing panicked, and its
  goroutine has been started: its first step starts the timer and reaches the
  \<^verbatim>\<open>select\<close>.
\<close>

theorem ListWatcher_Watch_empty_token:
  "ListWatcher_Watch (UnmarshalQueryParameter parse) l (options\<lparr>ResourceVersion := ''''\<rparr>) ws =
     (Inr (length ws),
      ws @ [\<lparr>lw = l, ch = [], ch_closed = False, interval = ListWatcher.interval l,
             rv = ZeroTime, lock = None, done_closed = False, closed = False,
             timer = NotStarted, run = RStart, calls = [], panicked = False, sent = [],
             delivered = [], ch_closes = 0, done_closes = 0\<rparr>]) \<and>
   step fmt (Run c)
     (snd (ListWatcher_Watch (UnmarshalQueryParameter parse) l
        (options\<lparr>ResourceVersion := ''''\<rparr>) ws) ! length ws) =
     \<lparr>lw = l, ch = [], ch_closed = False, interval = ListWatcher.interval l,
      rv = ZeroTime, lock = None, done_closed = False, closed = False,
      timer = Running, run = RSelect, calls = [], panicked = False, sent = [],
      delivered = [], ch_closes = 0, done_closes = 0\<rparr>"
  by (simp add: ListWatcher_Watch_def UnmarshalQueryParameter_def newPeriodicWatcher_def
      new_session_def step_def run_step_def)

text \<open>
  C8. \<^verbatim>\<open>(*Lister).List\<close>, when the cache holds jobs: if the enumeration of the
  indexer succeeds (the selector can be applied to every item), the result is
  the matching jobs, each once and in the order of the store, with no error; so
  a selector that matches nothing gives the empty result and no error. An error
  is returned only if the selector could not be applied to some item.
\<close>

theorem Lister_List_matching:
  "((\<forall>m \<in> set (Items (indexer s)). \<exists>b. sel m = Inr b) \<and>
    (\<forall>m \<in> set (Items (indexer s)). sel m = Inr True \<longrightarrow> (\<exists>j. m = JobObj j)) \<longrightarrow>
      (\<exists>js. Lister_List ListAll s sel = Returns (js, None) \<and>
            map JobObj js = filter (\<lambda>m. sel m = Inr True) (Items (indexer s)) \<and>
            set js = {j. JobObj j \<in> set (Items (indexer s)) \<and> sel (JobObj j) = Inr True})) \<and>
   ((\<forall>m \<in> set (Items (indexer s)). sel m = Inr False) \<longrightarrow>
      Lister_List ListAll s sel = Returns ([], None)) \<and>
   (Lister_List ListAll s sel = Returns (js', Some e) \<longrightarrow>
      (\<exists>m \<in> set (Items (indexer s)). sel m = Inl e))"
proof (intro conjI impI)
  assume a: "(\<forall>m \<in> set (Items (indexer s)). \<exists>b. sel m = Inr b) \<and>
    (\<forall>m \<in> set (Items (indexer s)). sel m = Inr True \<longrightarrow> (\<exists>j. m = JobObj j))"
  then obtain js where js:
    "ListAll_items sel (Items (indexer s)) append_job (Returns []) = (Returns ([] @ js), None)"
    "map JobObj js = filter (\<lambda>m. sel m = Inr True) (Items (indexer s))"
    using ListAll_items_all [of "Items (indexer s)" sel "[]"] by blast
  from js(2) have "JobObj ` set js = {m \<in> set (Items (indexer s)). sel m = Inr True}"
    by (metis list.set_map set_filter)
  then have "set js = {j. JobObj j \<in> set (Items (indexer s)) \<and> sel (JobObj j) = Inr True}"
    by (auto simp: image_iff set_eq_iff)
  with js show "\<exists>js. Lister_List ListAll s sel = Returns (js, None) \<and>
      map JobObj js = filter (\<lambda>m. sel m = Inr True) (Items (indexer s)) \<and>
      set js = {j. JobObj j \<in> set (Items (indexer s)) \<and> sel (JobObj j) = Inr True}"
    by (simp add: Lister_List_def ListAll_def)
next
  assume a: "\<forall>m \<in> set (Items (indexer s)). sel m = Inr False"
  then have 1: "\<forall>m \<in> set (Items (indexer s)). \<exists>b. sel m = Inr b" by blast
  from a have 2: "\<forall>m \<in> set (Items (indexer s)). sel m = Inr True \<longrightarrow> (\<exists>j. m = JobObj j)"
    by simp
  from ListAll_items_all [OF 1 2, of "[]"] obtain js where js:
    "ListAll_items sel (Items (indexer s)) append_job (Returns []) = (Returns ([] @ js), None)"
    "map JobObj js = filter (\<lambda>m. sel m = Inr True) (Items (indexer s))" by blast
  from a have "filter (\<lambda>m. sel m = Inr True) (Items (indexer s)) = []"
    by (simp add: filter_empty_conv)
  with js(2) have "js = []" by simp
  with js(1) show "Lister_List ListAll s sel = Returns ([], None)"
    by (simp add: Lister_List_def ListAll_def)
next
  assume "Lister_List ListAll s sel = Returns (js', Some e)"
  then obtain ret where "ListAll_items sel (Items (indexer s)) append_job (Returns []) = (ret, Some e)"
    by (auto simp: Lister_List_def ListAll_def split: prod.splits go.splits)
  then show "\<exists>m \<in> set (Items (indexer s)). sel m = Inl e" by (rule ListAll_items_error)
qed

theorem Lister_List_matching_witness:
  "Lister_List ListAll (NewLister \<lparr>GetByKey = (\<lambda>k. (NotJob, False, None)),
       Items = [JobObj ''a'', JobObj ''b'']\<rparr>) (\<lambda>m. Inr (m = JobObj ''a'')) =
     Returns ([''a''], None :: unit error option) \<and>
   Lister_List ListAll (NewLister \<lparr>GetByKey = (\<lambda>k. (NotJob, False, None)),
       Items = [JobObj ''a'', JobObj ''b'']\<rparr>) (\<lambda>m. Inr False) =
     Returns ([], None :: unit error option) \<and>
   Lister_List ListAll (NewLister \<lparr>GetByKey = (\<lambda>k. (NotJob, False, None)),
       Items = [JobObj ''a'', JobObj ''b'']\<rparr>)
       (\<lambda>m. if m = JobObj ''b'' then Inl (Foreign ()) else Inr True) =
     Returns ([''a''], Some (Foreign ())) \<and>
   (\<exists>m \<in> set [JobObj ''a'', JobObj ''b''].
      (if m = JobObj ''b'' then Inl (Foreign ()) else Inr True) = (Inl (Foreign ()) :: unit error + bool))"
proof -
  let ?s = "NewLister \<lparr>GetByKey = (\<lambda>k. (NotJob, False, None :: unit error option)),
       Items = [JobObj ''a'', JobObj ''b'']\<rparr>"
  let ?e = "\<lambda>m. if m = JobObj ''b'' then Inl (Foreign ()) else (Inr True :: unit error + bool)"
  have i: "Items (indexer ?s) = [JobObj ''a'', JobObj ''b'']" by (simp add: NewLister_def)
  have e: "Lister_List ListAll ?s ?e = Returns ([''a''], Some (Foreign ()))"
    by (simp add: Lister_List_def ListAll_def NewLister_def append_job_def)
  show ?thesis
    using Lister_List_matching [of ?s "\<lambda>m. Inr (m = JobObj ''a'')" "[]" "Foreign ()"]
      Lister_List_matching [of ?s "\<lambda>m. Inr False" "[]" "Foreign ()"]
      Lister_List_matching [of ?s ?e "[''a'']" "Foreign ()"] i e
    by auto
qed

section \<open>Properties of the session\<close>

subsection \<open>The mutex\<close>

lemma pcs_run: "pcs r' cs = (pcs r cs)(RunP := rpc r')"
proof
  fix p show "pcs r' cs p = ((pcs r cs)(RunP := rpc r')) p" by (cases p) simp_all
qed

lemma pcs_call: "i < length cs \<Longrightarrow> pcs r (cs[i := c]) = (pcs r cs)(StopP i := cpc c)"
proof
  fix p assume "i < length cs"
  then show "pcs r (cs[i := c]) p = ((pcs r cs)(StopP i := cpc c)) p"
    by (cases p) (simp_all add: nth_list_update)
qed

lemma lock_okD1: "lock_ok l f \<Longrightarrow> crit (f p) \<Longrightarrow> l = Some p"
  unfolding lock_ok_def by blast

lemma lock_okD2: "lock_ok l f \<Longrightarrow> l = Some p \<Longrightarrow> crit (f p)"
  unfolding lock_ok_def by blast

lemma lock_okI: "(\<And>q. (l = Some q) = crit (f q)) \<Longrightarrow> lock_ok l f"
  unfolding lock_ok_def by blast

lemma lock_holder: "lock_ok l f \<Longrightarrow> crit (f p) \<Longrightarrow> hp l f = f p"
  by (frule (1) lock_okD1) (simp add: hp_def)

lemma lock_same: 
  assumes "lock_ok l f" "\<not> crit (f p)" "\<not> crit x"
  shows "lock_ok l (f(p := x)) \<and> hp l (f(p := x)) = hp l f"
proof -
  have a: "l \<noteq> Some p" using lock_okD2 [OF assms(1)] assms(2) by blast
  have "lock_ok l (f(p := x))"
  proof (rule lock_okI)
    fix q show "(l = Some q) = crit ((f(p := x)) q)"
      using a assms lock_okD1 [OF assms(1), of q] lock_okD2 [OF assms(1), of q]
      by (cases "q = p") auto
  qed
  moreover have "hp l (f(p := x)) = hp l f"
    using a by (cases l) (simp_all add: hp_def)
  ultimately show ?thesis by simp
qed

lemma lock_acquire:
  assumes "lock_ok None f" "crit x"
  shows "lock_ok (Some p) (f(p := x)) \<and> hp (Some p) (f(p := x)) = x"
proof -
  have "lock_ok (Some p) (f(p := x))"
  proof (rule lock_okI)
    fix q show "(Some p = Some q) = crit ((f(p := x)) q)"
      using assms(2) lock_okD1 [OF assms(1), of q] by (cases "q = p") auto
  qed
  then show ?thesis by (simp add: hp_def)
qed

lemma lock_inside:
  assumes "lock_ok l f" "crit (f p)" "crit x"
  shows "lock_ok l (f(p := x)) \<and> hp l (f(p := x)) = x"
proof -
  have a: "l = Some p" using assms(1,2) by (rule lock_okD1)
  have "lock_ok l (f(p := x))"
  proof (rule lock_okI)
    fix q show "(l = Some q) = crit ((f(p := x)) q)"
      using a assms(3) lock_okD1 [OF assms(1), of q] by (cases "q = p") auto
  qed
  then show ?thesis using a by (simp add: hp_def)
qed

lemma lock_release:
  assumes "lock_ok l f" "crit (f p)" "\<not> crit x"
  shows "lock_ok None (f(p := x)) \<and> hp None (f(p := x)) = None"
proof -
  have a: "l = Some p" using assms(1,2) by (rule lock_okD1)
  have "lock_ok None (f(p := x))"
  proof (rule lock_okI)
    fix q show "(None = Some q) = crit ((f(p := x)) q)"
      using a assms(3) lock_okD1 [OF assms(1), of q] by (cases "q = p") auto
  qed
  then show ?thesis by (simp add: hp_def)
qed

lemma pcs_session: "pcs RStart (replicate n Idle) p = None"
  by (cases p) (simp_all add: rpc_def cpc_def)

lemma inv_session: "inv fmt (session n l i r)"
  by (simp add: inv_def session_def new_session_def lock_ok_def hp_def flags_ok_def
      run_ok_def call_ok_def crit_def pcs_session)

lemma inv_tick: "inv fmt s \<Longrightarrow> inv fmt (tick_step s)"
  by (cases "run s") (auto simp: inv_def tick_step_def run_ok_def)

lemma call_ok_pop: "call_ok c r (e # es) k \<Longrightarrow> call_ok c r es k"
  by (cases k) (simp_all add: call_ok_def)

lemma inv_recv: "inv fmt s \<Longrightarrow> inv fmt (recv_step s)"
  by (cases "ch s") (auto simp: inv_def recv_step_def intro: call_ok_pop)

lemma stop_step_frame:
  "stop_step p pc s = (npc, s') \<Longrightarrow>
     run s' = run s \<and> calls s' = calls s \<and> ch s' = ch s \<and> ch_closed s' = ch_closed s \<and>
     timer s' = timer s \<and> sent s' = sent s \<and> delivered s' = delivered s \<and>
     interval s' = interval s \<and> ch_closes s' = ch_closes s"
  by (cases pc) (auto split: if_splits)

lemma stop_step_ok:
  assumes l: "lock_ok (lock s) f"
    and fl: "flags_ok (hp (lock s) f) (done_closed s) (closed s)"
    and pc: "f p = Some pc"
    and cnt: "done_closes s = (if done_closed s then 1 else 0)"
    and st: "stop_step p pc s = (npc, s')"
  shows "lock_ok (lock s') (f(p := npc)) \<and>
         flags_ok (hp (lock s') (f(p := npc))) (done_closed s') (closed s') \<and>
         panicked s' = panicked s \<and>
         done_closes s' = (if done_closed s' then 1 else 0) \<and>
         (closed s \<longrightarrow> closed s') \<and> (done_closed s \<longrightarrow> done_closed s') \<and>
         (npc = None \<longrightarrow> closed s' \<and> done_closed s')"
proof (cases pc)
  case SLock
  show ?thesis
  proof (cases "lock s = None")
    case True
    with st SLock have e: "npc = Some SCheck" "s' = s\<lparr>lock := Some p\<rparr>" by auto
    from l True have "lock_ok None f" by simp
    from lock_acquire [OF this, of "Some SCheck" p]
    have "lock_ok (Some p) (f(p := Some SCheck))" "hp (Some p) (f(p := Some SCheck)) = Some SCheck"
      by (simp_all add: crit_def)
    moreover from fl True have "done_closed s = closed s" by (simp add: hp_def flags_ok_def)
    ultimately show ?thesis using e cnt by (simp add: flags_ok_def)
  next
    case False
    with st SLock have e: "npc = Some SLock" "s' = s" by auto
    have "f(p := Some SLock) = f" using pc SLock by (simp add: fun_upd_idem)
    then show ?thesis using e l fl cnt by simp
  qed
next
  case SCheck
  have c: "crit (f p)" using pc SCheck by (simp add: crit_def)
  from lock_holder [OF l c] have h: "hp (lock s) f = Some SCheck" using pc SCheck by simp
  with fl have dc: "done_closed s = closed s" by (simp add: flags_ok_def)
  show ?thesis
  proof (cases "closed s")
    case True
    with st SCheck have e: "npc = Some SUnlock" "s' = s" by auto
    from lock_inside [OF l c, of "Some SUnlock"]
    have "lock_ok (lock s) (f(p := Some SUnlock))" "hp (lock s) (f(p := Some SUnlock)) = Some SUnlock"
      by (simp_all add: crit_def)
    then show ?thesis using e True dc cnt by (simp add: flags_ok_def)
  next
    case False
    with st SCheck have e: "npc = Some SCloseDone" "s' = s" by auto
    from lock_inside [OF l c, of "Some SCloseDone"]
    have "lock_ok (lock s) (f(p := Some SCloseDone))"
         "hp (lock s) (f(p := Some SCloseDone)) = Some SCloseDone"
      by (simp_all add: crit_def)
    then show ?thesis using e False dc cnt by (simp add: flags_ok_def)
  qed
next
  case SCloseDone
  have c: "crit (f p)" using pc SCloseDone by (simp add: crit_def)
  from lock_holder [OF l c] have h: "hp (lock s) f = Some SCloseDone" using pc SCloseDone by simp
  with fl have dc: "\<not> done_closed s" "\<not> closed s" by (simp_all add: flags_ok_def)
  with st SCloseDone have e: "npc = Some SSetClosed"
    "s' = s\<lparr>done_closed := True, done_closes := done_closes s + 1\<rparr>" by auto
  from lock_inside [OF l c, of "Some SSetClosed"]
  have "lock_ok (lock s) (f(p := Some SSetClosed))"
       "hp (lock s) (f(p := Some SSetClosed)) = Some SSetClosed"
    by (simp_all add: crit_def)
  then show ?thesis using e dc cnt by (simp add: flags_ok_def)
next
  case SSetClosed
  have c: "crit (f p)" using pc SSetClosed by (simp add: crit_def)
  from lock_holder [OF l c] have h: "hp (lock s) f = Some SSetClosed" using pc SSetClosed by simp
  with fl have dc: "done_closed s" "\<not> closed s" by (simp_all add: flags_ok_def)
  from st SSetClosed have e: "npc = Some SUnlock" "s' = s\<lparr>closed := True\<rparr>" by auto
  from lock_inside [OF l c, of "Some SUnlock"]
  have "lock_ok (lock s) (f(p := Some SUnlock))"
       "hp (lock s) (f(p := Some SUnlock)) = Some SUnlock"
    by (simp_all add: crit_def)
  then show ?thesis using e dc cnt by (simp add: flags_ok_def)
next
  case SUnlock
  have c: "crit (f p)" using pc SUnlock by (simp add: crit_def)
  from lock_okD1 [OF l c] have h': "lock s = Some p" .
  from lock_holder [OF l c] have h: "hp (lock s) f = Some SUnlock"
    using pc SUnlock by simp
  with fl have dc: "done_closed s" "closed s" by (simp_all add: flags_ok_def)
  from st SUnlock h' have e: "npc = None" "s' = s\<lparr>lock := None\<rparr>" by auto
  from lock_release [OF l c, of None]
  have "lock_ok None (f(p := None))" "hp None (f(p := None)) = None"
    by (simp_all add: crit_def)
  then show ?thesis using e dc cnt by (simp add: flags_ok_def)
qed

lemma run_move:
  assumes "lock_ok l (pcs r cs)" "\<not> crit (rpc r)" "\<not> crit (rpc r')"
  shows "lock_ok l (pcs r' cs) \<and> hp l (pcs r' cs) = hp l (pcs r cs)"
proof -
  have "pcs r' cs = (pcs r cs)(RunP := rpc r')" by (rule pcs_run)
  moreover have "\<not> crit (pcs r cs RunP)" using assms(2) by simp
  ultimately show ?thesis using lock_same [OF assms(1) _ assms(3), of RunP] by simp
qed

lemma call_move:
  assumes "lock_ok l (pcs r cs)" "i < length cs" "\<not> crit (cpc (cs ! i))" "\<not> crit (cpc k)"
  shows "lock_ok l (pcs r (cs[i := k])) \<and> hp l (pcs r (cs[i := k])) = hp l (pcs r cs)"
proof -
  have "pcs r (cs[i := k]) = (pcs r cs)(StopP i := cpc k)" using assms(2) by (rule pcs_call)
  moreover have "\<not> crit (pcs r cs (StopP i))" using assms(2,3) by simp
  ultimately show ?thesis using lock_same [OF assms(1) _ assms(4), of "StopP i"] by simp
qed

lemma call_ok_run:
  "call_ok c r b k \<Longrightarrow> r \<noteq> RExit \<Longrightarrow> (c \<longrightarrow> c') \<Longrightarrow> call_ok c' r' b' k"
  by (cases k) (simp_all add: call_ok_def)

lemma call_ok_closed:
  "call_ok c r b k \<Longrightarrow> (c \<longrightarrow> c') \<Longrightarrow> call_ok c' r b k"
  by (cases k) (simp_all add: call_ok_def)

lemma calls_ok_update:
  "\<forall>k \<in> set cs. P k \<Longrightarrow> P x \<Longrightarrow> \<forall>k \<in> set (cs[i := x]). P k"
  using set_update_subset_insert [of cs i x] by auto

lemma calls_ok_run:
  assumes "\<forall>k \<in> set cs. call_ok c r b k" "r \<noteq> RExit" "c \<longrightarrow> c'"
  shows "\<forall>k \<in> set cs. call_ok c' r' b' k"
proof
  fix k assume "k \<in> set cs"
  with assms(1) have "call_ok c r b k" by blast
  then show "call_ok c' r' b' k" using assms(2,3) by (rule call_ok_run)
qed

lemma inv_run_step:
  assumes "inv fmt s"
  shows "inv fmt (run_step fmt c s)"
proof -
  let ?ev = "expired_event fmt (interval s)"
  from assms have np: "\<not> panicked s"
    and l: "lock_ok (lock s) (pcs (run s) (calls s))"
    and fl: "flags_ok (hp (lock s) (pcs (run s) (calls s))) (done_closed s) (closed s)"
    and ro: "run_ok ?ev (run s) (timer s) (sent s) (ch_closed s) (done_closed s)"
    and co: "\<forall>k \<in> set (calls s). call_ok (closed s) (run s) (ch s) k"
    and len: "length (ch s) + length (delivered s) \<le> length (sent s)"
    and dc: "done_closes s = (if done_closed s then 1 else 0)"
    and cc: "ch_closes s = (if ch_closed s then 1 else 0)"
    by (simp_all add: inv_def)
  show ?thesis
  proof (cases "run s")
    case RStart
    from run_move [OF l, of RSelect] RStart
    have "lock_ok (lock s) (pcs RSelect (calls s))"
      "hp (lock s) (pcs RSelect (calls s)) = hp (lock s) (pcs (run s) (calls s))"
      by (simp_all add: rpc_def crit_def)
    moreover have "\<forall>k \<in> set (calls s). call_ok (closed s) RSelect (ch s) k"
      using calls_ok_run [OF co, where c' = "closed s" and r' = RSelect and b' = "ch s"] RStart by simp
    ultimately show ?thesis using RStart np fl ro len dc cc
      by (simp add: inv_def run_step_def run_ok_def)
  next
    case RSelect
    from run_move [OF l, of RSend] RSelect
    have a: "lock_ok (lock s) (pcs RSend (calls s))"
      "hp (lock s) (pcs RSend (calls s)) = hp (lock s) (pcs (run s) (calls s))"
      by (simp_all add: rpc_def crit_def)
    from run_move [OF l, of RCloseCh] RSelect
    have b: "lock_ok (lock s) (pcs RCloseCh (calls s))"
      "hp (lock s) (pcs RCloseCh (calls s)) = hp (lock s) (pcs (run s) (calls s))"
      by (simp_all add: rpc_def crit_def)
    have c1: "\<forall>k \<in> set (calls s). call_ok (closed s) RSend (ch s) k"
      using calls_ok_run [OF co, where c' = "closed s" and r' = RSend and b' = "ch s"] RSelect by simp
    have c2: "\<forall>k \<in> set (calls s). call_ok (closed s) RCloseCh (ch s) k"
      using calls_ok_run [OF co, where c' = "closed s" and r' = RCloseCh and b' = "ch s"] RSelect by simp
    show ?thesis using RSelect np fl ro len dc cc a b c1 c2 assms
      by (cases c; cases "done_closed s"; cases "timer s = Fired")
        (simp_all add: inv_def run_step_def run_ok_def)
  next
    case RSend
    from ro RSend have s0: "sent s = []" "\<not> ch_closed s" "timer s = Fired"
      by (simp_all add: run_ok_def)
    with len have e: "ch s = []" "delivered s = []" by simp_all
    from run_move [OF l, of "RStop SLock"] RSend
    have "lock_ok (lock s) (pcs (RStop SLock) (calls s))"
      "hp (lock s) (pcs (RStop SLock) (calls s)) = hp (lock s) (pcs (run s) (calls s))"
      by (simp_all add: rpc_def crit_def)
    moreover have "\<forall>k \<in> set (calls s). call_ok (closed s) (RStop SLock) [?ev] k"
      using calls_ok_run [OF co, where c' = "closed s" and r' = "RStop SLock" and b' = "[?ev]"] RSend by simp
    ultimately show ?thesis using RSend np fl s0 e dc cc
      by (simp add: inv_def run_step_def run_ok_def ch_cap_def)
  next
    case (RStop pc)
    obtain npc s' where st: "stop_step RunP pc s = (npc, s')" by (cases "stop_step RunP pc s")
    have pc: "pcs (run s) (calls s) RunP = Some pc" using RStop by (simp add: rpc_def)
    note ok = stop_step_ok [OF l fl pc dc st]
    note fr = stop_step_frame [OF st]
    let ?r = "case npc of Some pc' \<Rightarrow> RStop pc' | None \<Rightarrow> RCloseCh"
    have res: "run_step fmt c s = s'\<lparr>run := ?r\<rparr>"
      using RStop st by (simp add: run_step_def split: option.splits)
    have "rpc ?r = npc" by (simp add: rpc_def split: option.splits)
    then have p': "pcs ?r (calls s) = (pcs (run s) (calls s))(RunP := npc)"
      using pcs_run [of ?r "calls s" "run s"] by simp
    have ro': "run_ok ?ev ?r (timer s) (sent s) (ch_closed s) (done_closed s')"
      using ro RStop ok by (simp add: run_ok_def split: option.splits)
    have "?r \<noteq> RExit" by (simp split: option.splits)
    have co': "\<forall>k \<in> set (calls s). call_ok (closed s') ?r (ch s) k"
      using calls_ok_run [OF co, where c' = "closed s'" and r' = ?r and b' = "ch s"] RStop ok by simp
    show ?thesis
      unfolding res using ok fr p' ro' co' np len cc
      by (simp add: inv_def)
  next
    case RCloseCh
    from ro RCloseCh have s0: "\<not> ch_closed s" by (simp add: run_ok_def)
    from run_move [OF l, of RExit] RCloseCh
    have "lock_ok (lock s) (pcs RExit (calls s))"
      "hp (lock s) (pcs RExit (calls s)) = hp (lock s) (pcs (run s) (calls s))"
      by (simp_all add: rpc_def crit_def)
    moreover have "\<forall>k \<in> set (calls s). call_ok (closed s) RExit (ch s) k"
      using calls_ok_run [OF co, where c' = "closed s" and r' = RExit and b' = "ch s"] RCloseCh by simp
    ultimately show ?thesis using RCloseCh np fl ro s0 len dc cc
      by (simp add: inv_def run_step_def run_ok_def)
  next
    case RExit
    then show ?thesis using assms by (simp add: run_step_def)
  qed
qed

lemma inv_call_step:
  assumes "inv fmt s"
  shows "inv fmt (call_step i s)"
proof (cases "i < length (calls s)")
  case False
  then show ?thesis using assms by (simp add: call_step_def)
next
  case i: True
  let ?ev = "expired_event fmt (interval s)"
  from assms have np: "\<not> panicked s"
    and l: "lock_ok (lock s) (pcs (run s) (calls s))"
    and fl: "flags_ok (hp (lock s) (pcs (run s) (calls s))) (done_closed s) (closed s)"
    and ro: "run_ok ?ev (run s) (timer s) (sent s) (ch_closed s) (done_closed s)"
    and co: "\<forall>k \<in> set (calls s). call_ok (closed s) (run s) (ch s) k"
    and len: "length (ch s) + length (delivered s) \<le> length (sent s)"
    and dc: "done_closes s = (if done_closed s then 1 else 0)"
    and cc: "ch_closes s = (if ch_closed s then 1 else 0)"
    by (simp_all add: inv_def)
  from co i have coi: "call_ok (closed s) (run s) (ch s) (calls s ! i)" by simp
  show ?thesis
  proof (cases "calls s ! i")
    case Idle
    from call_move [OF l i, of "InStop SLock"] Idle
    have "lock_ok (lock s) (pcs (run s) ((calls s)[i := InStop SLock]))"
      "hp (lock s) (pcs (run s) ((calls s)[i := InStop SLock])) = hp (lock s) (pcs (run s) (calls s))"
      by (simp_all add: cpc_def crit_def)
    moreover have "\<forall>k \<in> set ((calls s)[i := InStop SLock]). call_ok (closed s) (run s) (ch s) k"
      using co by (rule calls_ok_update) (simp add: call_ok_def)
    ultimately show ?thesis using Idle i np fl ro len dc cc
      by (simp add: inv_def call_step_def)
  next
    case (InStop pc)
    obtain npc s' where st: "stop_step (StopP i) pc s = (npc, s')"
      by (cases "stop_step (StopP i) pc s")
    have pc: "pcs (run s) (calls s) (StopP i) = Some pc" using InStop i by (simp add: cpc_def)
    note ok = stop_step_ok [OF l fl pc dc st]
    note fr = stop_step_frame [OF st]
    let ?k = "case npc of Some pc' \<Rightarrow> InStop pc' | None \<Rightarrow> Drain"
    have res: "call_step i s = s'\<lparr>calls := (calls s)[i := ?k]\<rparr>"
      using InStop st i fr by (simp add: call_step_def split: option.splits)
    have "cpc ?k = npc" by (simp add: cpc_def split: option.splits)
    then have p': "pcs (run s) ((calls s)[i := ?k]) = (pcs (run s) (calls s))(StopP i := npc)"
      using pcs_call [OF i, of "run s" ?k] by simp
    have "\<forall>k \<in> set (calls s). call_ok (closed s') (run s) (ch s) k"
    proof
      fix k assume "k \<in> set (calls s)"
      with co have "call_ok (closed s) (run s) (ch s) k" by blast
      then show "call_ok (closed s') (run s) (ch s) k"
        by (rule call_ok_closed) (use ok in simp)
    qed
    moreover have "call_ok (closed s') (run s) (ch s) ?k"
      using ok by (simp add: call_ok_def split: option.splits)
    ultimately have co': "\<forall>k \<in> set ((calls s)[i := ?k]). call_ok (closed s') (run s) (ch s) k"
      by (rule calls_ok_update)
    have ro': "run_ok ?ev (run s) (timer s) (sent s) (ch_closed s) (done_closed s')"
      using ro ok by (cases "run s") (simp_all add: run_ok_def)
    show ?thesis
      unfolding res using ok fr p' ro' co' np len cc
      by (simp add: inv_def)
  next
    case Drain
    show ?thesis
    proof (cases "ch s")
      case (Cons e es)
      have "\<forall>k \<in> set (calls s). call_ok (closed s) (run s) es k"
      proof
        fix k assume "k \<in> set (calls s)"
        with co have "call_ok (closed s) (run s) (e # es) k" using Cons by auto
        then show "call_ok (closed s) (run s) es k" by (rule call_ok_pop)
      qed
      then show ?thesis using Drain i Cons np l fl ro len dc cc
        by (simp add: inv_def call_step_def)
    next
      case Nil
      show ?thesis
      proof (cases "ch_closed s")
        case False
        then show ?thesis using Drain i Nil assms by (simp add: call_step_def)
      next
        case True
        with ro have r: "run s = RExit" by (cases "run s") (simp_all add: run_ok_def)
        from call_move [OF l i, of Returned] Drain
        have "lock_ok (lock s) (pcs (run s) ((calls s)[i := Returned]))"
          "hp (lock s) (pcs (run s) ((calls s)[i := Returned])) = hp (lock s) (pcs (run s) (calls s))"
          by (simp_all add: cpc_def crit_def)
        moreover have "\<forall>k \<in> set ((calls s)[i := Returned]). call_ok (closed s) (run s) (ch s) k"
          using co by (rule calls_ok_update) (use coi Drain r Nil in \<open>simp add: call_ok_def\<close>)
        ultimately show ?thesis using Drain i Nil True np fl ro len dc cc
          by (simp add: inv_def call_step_def)
      qed
    qed
  next
    case Returned
    then show ?thesis using i assms by (simp add: call_step_def)
  qed
qed

lemma inv_step: "inv fmt s \<Longrightarrow> inv fmt (step fmt l s)"
  by (cases l) (simp_all add: step_def inv_tick inv_run_step inv_call_step inv_recv)

lemma inv_exec: "inv fmt s \<Longrightarrow> inv fmt (exec fmt ls s)"
  by (induction ls arbitrary: s) (simp_all add: inv_step)

subsection \<open>Progress\<close>

lemma stop_step_progress:
  assumes l: "lock_ok (lock s) f"
    and fl: "flags_ok (hp (lock s) f) (done_closed s) (closed s)"
    and pc: "f p = Some pc"
    and st: "stop_step p pc s = (npc, s')"
  shows "(npc = Some pc \<and> s' = s \<and> pc = SLock \<and> lock s \<noteq> None) \<or> srank npc < srank (Some pc)"
proof (cases pc)
  case SLock
  then show ?thesis using st by (auto simp: srank_def split: if_splits)
next
  case SCheck
  then show ?thesis using st by (auto simp: srank_def split: if_splits)
next
  case SCloseDone
  have c: "crit (f p)" using pc SCloseDone by (simp add: crit_def)
  from lock_holder [OF l c] have "hp (lock s) f = Some SCloseDone" using pc SCloseDone by simp
  with fl have "\<not> done_closed s" by (simp add: flags_ok_def)
  then show ?thesis using st SCloseDone by (auto simp: srank_def)
next
  case SSetClosed
  then show ?thesis using st by (auto simp: srank_def)
next
  case SUnlock
  have c: "crit (f p)" using pc SUnlock by (simp add: crit_def)
  from lock_okD1 [OF l c] have "lock s = Some p" .
  then show ?thesis using st SUnlock by (auto simp: srank_def)
qed

lemma sum_list_update_less:
  fixes f :: "'a \<Rightarrow> nat"
  assumes "i < length xs" "f x < f (xs ! i)"
  shows "sum_list (map f (xs[i := x])) < sum_list (map f xs)"
  using assms
proof (induction xs arbitrary: i)
  case Nil
  then show ?case by simp
next
  case (Cons a xs)
  then show ?case by (cases i) auto
qed

lemma rank_tick: "tick_step s \<noteq> s \<Longrightarrow> rank (tick_step s) < rank s"
  by (cases "timer s") (simp_all add: tick_step_def rank_def)

lemma rank_recv: "recv_step s \<noteq> s \<Longrightarrow> rank (recv_step s) < rank s"
  by (cases "ch s") (simp_all add: recv_step_def rank_def)

lemma rank_run_step:
  assumes "inv fmt s" "run_step fmt c s \<noteq> s"
  shows "rank (run_step fmt c s) < rank s"
proof -
  let ?ev = "expired_event fmt (interval s)"
  from assms have l: "lock_ok (lock s) (pcs (run s) (calls s))"
    and fl: "flags_ok (hp (lock s) (pcs (run s) (calls s))) (done_closed s) (closed s)"
    and ro: "run_ok ?ev (run s) (timer s) (sent s) (ch_closed s) (done_closed s)"
    and len: "length (ch s) + length (delivered s) \<le> length (sent s)"
    by (simp_all add: inv_def)
  show ?thesis
  proof (cases "run s")
    case RStart
    with ro show ?thesis by (simp add: run_step_def rank_def run_ok_def)
  next
    case RSelect
    with assms(2) show ?thesis
      by (cases c) (auto simp: run_step_def rank_def split: if_splits)
  next
    case RSend
    with ro len show ?thesis by (simp add: run_step_def rank_def run_ok_def ch_cap_def)
  next
    case (RStop pc)
    obtain npc s' where st: "stop_step RunP pc s = (npc, s')" by (cases "stop_step RunP pc s")
    have pc: "pcs (run s) (calls s) RunP = Some pc" using RStop by (simp add: rpc_def)
    note fr = stop_step_frame [OF st]
    let ?r = "case npc of Some pc' \<Rightarrow> RStop pc' | None \<Rightarrow> RCloseCh"
    have res: "run_step fmt c s = s'\<lparr>run := ?r\<rparr>"
      using RStop st by (simp add: run_step_def split: option.splits)
    have rr: "run_rank ?r = srank npc" by (simp add: srank_def split: option.splits)
    from stop_step_progress [OF l fl pc st] show ?thesis
    proof
      assume "npc = Some pc \<and> s' = s \<and> pc = SLock \<and> lock s \<noteq> None"
      then have "run_step fmt c s = s" using res RStop by simp
      with assms(2) show ?thesis by simp
    next
      assume "srank npc < srank (Some pc)"
      then show ?thesis unfolding res using rr fr RStop by (simp add: rank_def srank_def)
    qed
  next
    case RCloseCh
    with ro show ?thesis by (simp add: run_step_def rank_def run_ok_def)
  next
    case RExit
    with assms(2) show ?thesis by (simp add: run_step_def)
  qed
qed

lemma rank_call_step:
  assumes "inv fmt s" "call_step i s \<noteq> s"
  shows "rank (call_step i s) < rank s"
proof (cases "i < length (calls s)")
  case False
  then show ?thesis using assms(2) by (simp add: call_step_def)
next
  case i: True
  from assms have l: "lock_ok (lock s) (pcs (run s) (calls s))"
    and fl: "flags_ok (hp (lock s) (pcs (run s) (calls s))) (done_closed s) (closed s)"
    by (simp_all add: inv_def)
  show ?thesis
  proof (cases "calls s ! i")
    case Idle
    have "sum_list (map call_rank ((calls s)[i := InStop SLock])) < sum_list (map call_rank (calls s))"
      using i Idle by (intro sum_list_update_less) simp_all
    then show ?thesis using Idle i by (simp add: call_step_def rank_def)
  next
    case (InStop pc)
    obtain npc s' where st: "stop_step (StopP i) pc s = (npc, s')"
      by (cases "stop_step (StopP i) pc s")
    have pc: "pcs (run s) (calls s) (StopP i) = Some pc" using InStop i by (simp add: cpc_def)
    note fr = stop_step_frame [OF st]
    let ?k = "case npc of Some pc' \<Rightarrow> InStop pc' | None \<Rightarrow> Drain"
    have res: "call_step i s = s'\<lparr>calls := (calls s)[i := ?k]\<rparr>"
      using InStop st i fr by (simp add: call_step_def split: option.splits)
    have rr: "call_rank ?k = srank npc" by (simp add: srank_def split: option.splits)
    from stop_step_progress [OF l fl pc st] show ?thesis
    proof
      assume a: "npc = Some pc \<and> s' = s \<and> pc = SLock \<and> lock s \<noteq> None"
      then have "(calls s)[i := ?k] = calls s" using InStop by (simp add: list_update_same_conv i)
      then have "call_step i s = s" using res a by simp
      with assms(2) show ?thesis by simp
    next
      assume "srank npc < srank (Some pc)"
      then have "call_rank ?k < call_rank (calls s ! i)" using rr InStop by (simp add: srank_def)
      with i have "sum_list (map call_rank ((calls s)[i := ?k])) < sum_list (map call_rank (calls s))"
        by (rule sum_list_update_less)
      then show ?thesis unfolding res using fr by (simp add: rank_def)
    qed
  next
    case Drain
    show ?thesis
    proof (cases "ch s")
      case (Cons e es)
      then show ?thesis using Drain i by (simp add: call_step_def rank_def)
    next
      case Nil
      have "sum_list (map call_rank ((calls s)[i := Returned])) < sum_list (map call_rank (calls s))"
        using i Drain by (intro sum_list_update_less) simp_all
      then show ?thesis using Drain i Nil assms(2)
        by (cases "ch_closed s") (simp_all add: call_step_def rank_def)
    qed
  next
    case Returned
    then show ?thesis using i assms(2) by (simp add: call_step_def)
  qed
qed

lemma rank_step:
  assumes "inv fmt s" "step fmt l s \<noteq> s"
  shows "rank (step fmt l s) < rank s"
proof -
  from assms(1) have "\<not> panicked s" by (simp add: inv_def)
  then show ?thesis using assms rank_tick [of s] rank_recv [of s]
      rank_run_step [of fmt s] rank_call_step [of fmt s]
    by (cases l) (simp_all add: step_def)
qed

lemma effective_rank:
  "inv fmt s \<Longrightarrow> effective fmt ls s + rank (exec fmt ls s) \<le> rank s"
proof (induction ls arbitrary: s)
  case Nil
  then show ?case by simp
next
  case (Cons l ls)
  from Cons.prems have i': "inv fmt (step fmt l s)" by (rule inv_step)
  from Cons.IH [OF i'] have ih:
    "effective fmt ls (step fmt l s) + rank (exec fmt ls (step fmt l s)) \<le> rank (step fmt l s)" .
  show ?case
  proof (cases "step fmt l s = s")
    case True
    then show ?thesis using ih by simp
  next
    case False
    from rank_step [OF Cons.prems False] ih show ?thesis using False by simp
  qed
qed

lemma run_stop_enabled:
  assumes "inv fmt s" "run s = RStop pc" "pc = SLock \<longrightarrow> lock s = None"
  shows "run (run_step fmt c s) \<noteq> run s"
proof -
  from assms(1) have l: "lock_ok (lock s) (pcs (run s) (calls s))"
    and fl: "flags_ok (hp (lock s) (pcs (run s) (calls s))) (done_closed s) (closed s)"
    by (simp_all add: inv_def)
  obtain npc s' where st: "stop_step RunP pc s = (npc, s')" by (cases "stop_step RunP pc s")
  have pc: "pcs (run s) (calls s) RunP = Some pc" using assms(2) by (simp add: rpc_def)
  let ?r = "case npc of Some pc' \<Rightarrow> RStop pc' | None \<Rightarrow> RCloseCh"
  have res: "run_step fmt c s = s'\<lparr>run := ?r\<rparr>"
    using assms(2) st by (simp add: run_step_def split: option.splits)
  have rr: "run_rank ?r = srank npc" by (simp add: srank_def split: option.splits)
  from stop_step_progress [OF l fl pc st] assms(3)
  have "srank npc < srank (Some pc)" by auto
  then have "run_rank ?r \<noteq> run_rank (run s)" using rr assms(2) by (simp add: srank_def)
  then have "?r \<noteq> run s" by auto
  then show ?thesis unfolding res by simp
qed

lemma call_stop_enabled:
  assumes "inv fmt s" "i < length (calls s)" "calls s ! i = InStop pc"
    "pc = SLock \<longrightarrow> lock s = None"
  shows "calls (call_step i s) ! i \<noteq> calls s ! i"
proof -
  from assms(1) have l: "lock_ok (lock s) (pcs (run s) (calls s))"
    and fl: "flags_ok (hp (lock s) (pcs (run s) (calls s))) (done_closed s) (closed s)"
    by (simp_all add: inv_def)
  obtain npc s' where st: "stop_step (StopP i) pc s = (npc, s')"
    by (cases "stop_step (StopP i) pc s")
  have pc: "pcs (run s) (calls s) (StopP i) = Some pc" using assms(2,3) by (simp add: cpc_def)
  note fr = stop_step_frame [OF st]
  let ?k = "case npc of Some pc' \<Rightarrow> InStop pc' | None \<Rightarrow> Drain"
  have res: "call_step i s = s'\<lparr>calls := (calls s)[i := ?k]\<rparr>"
    using assms(2,3) st fr by (simp add: call_step_def split: option.splits)
  have rr: "call_rank ?k = srank npc" by (simp add: srank_def split: option.splits)
  from stop_step_progress [OF l fl pc st] assms(4)
  have "srank npc < srank (Some pc)" by auto
  then have "call_rank ?k \<noteq> call_rank (calls s ! i)" using rr assms(3) by (simp add: srank_def)
  then have "?k \<noteq> calls s ! i" by auto
  then show ?thesis unfolding res using assms(2) by simp
qed

lemma flags_closed: "flags_ok h d c \<Longrightarrow> c \<Longrightarrow> d"
  by (auto simp: flags_ok_def split: option.splits stop_pc.splits)



lemma call_step_length: "length (calls (call_step i s)) = length (calls s)"
proof (cases "i < length (calls s)")
  case True
  show ?thesis
  proof (cases "calls s ! i")
    case (InStop pc)
    obtain npc s' where st: "stop_step (StopP i) pc s = (npc, s')"
      by (cases "stop_step (StopP i) pc s")
    from stop_step_frame [OF st] InStop st True show ?thesis
      by (simp add: call_step_def split: option.splits)
  qed (use True in \<open>simp_all add: call_step_def split: list.splits\<close>)
qed (simp add: call_step_def)

lemma run_step_calls: "calls (run_step fmt c s) = calls s"
proof (cases "run s")
  case (RStop pc)
  obtain npc s' where st: "stop_step RunP pc s = (npc, s')" by (cases "stop_step RunP pc s")
  from stop_step_frame [OF st] RStop st show ?thesis
    by (simp add: run_step_def split: option.splits)
qed (simp_all add: run_step_def split: sel_case.splits)

lemma step_length: "length (calls (step fmt l s)) = length (calls s)"
  by (cases l)
    (simp_all add: step_def tick_step_def recv_step_def run_step_calls call_step_length
      split: list.splits)

lemma exec_length: "length (calls (exec fmt ls s)) = length (calls s)"
  by (induction ls arbitrary: s) (simp_all add: step_length)

lemma inv_reach: "inv fmt (exec fmt ls (session n l i r))"
  by (rule inv_exec) (rule inv_session)

lemma call_step_frame:
  "run (call_step i s) = run s \<and> sent (call_step i s) = sent s \<and>
   delivered (call_step i s) = delivered s \<and> timer (call_step i s) = timer s \<and>
   ch_closed (call_step i s) = ch_closed s \<and> (ch s = [] \<longrightarrow> ch (call_step i s) = [])"
proof (cases "i < length (calls s)")
  case True
  show ?thesis
  proof (cases "calls s ! i")
    case (InStop pc)
    obtain npc s' where st: "stop_step (StopP i) pc s = (npc, s')"
      by (cases "stop_step (StopP i) pc s")
    from stop_step_frame [OF st] InStop st True show ?thesis
      by (simp add: call_step_def split: option.splits)
  qed (use True in \<open>simp_all add: call_step_def split: list.splits\<close>)
qed (simp add: call_step_def)


lemma run_step_sent:
  "run s \<noteq> RSend \<Longrightarrow> sent (run_step fmt c s) = sent s \<and> ch (run_step fmt c s) = ch s"
proof (cases "run s")
  case (RStop pc)
  obtain npc s' where st: "stop_step RunP pc s = (npc, s')" by (cases "stop_step RunP pc s")
  from stop_step_frame [OF st] RStop st show ?thesis
    by (simp add: run_step_def split: option.splits)
qed (simp_all add: run_step_def split: sel_case.splits)




lemma sent_cases:
  "inv fmt s \<Longrightarrow> sent s = [] \<or> sent s = [expired_event fmt (interval s)] \<and> timer s = Fired"
  by (cases "run s") (simp_all add: inv_def run_ok_def)

lemma closed_iff_exit: "inv fmt s \<Longrightarrow> ch_closed s = (run s = RExit)"
  by (cases "run s") (simp_all add: inv_def run_ok_def)

lemma exit_done: "inv fmt s \<Longrightarrow> run s = RExit \<Longrightarrow> done_closed s"
  by (simp add: inv_def run_ok_def)

lemma exited_stable:
  assumes "run s = RExit" "ch s = []"
  shows "run (step fmt l s) = RExit \<and> ch (step fmt l s) = [] \<and>
         delivered (step fmt l s) = delivered s \<and> sent (step fmt l s) = sent s"
proof (cases l)
  case (Stop j)
  then show ?thesis using assms call_step_frame [of j s] by (simp add: step_def)
qed (use assms in \<open>simp_all add: step_def tick_step_def recv_step_def run_step_def\<close>)

lemma exited_stable_exec:
  "run s = RExit \<Longrightarrow> ch s = [] \<Longrightarrow>
   delivered (exec fmt ls s) = delivered s \<and> sent (exec fmt ls s) = sent s"
proof (induction ls arbitrary: s)
  case Nil
  then show ?case by simp
next
  case (Cons l ls)
  from exited_stable [OF Cons.prems, of fmt l] Cons.IH [of "step fmt l s"]
  show ?case by simp
qed

lemma closing_stable:
  assumes "run s = RCloseCh \<or> run s = RExit"
  shows "(run (step fmt l s) = RCloseCh \<or> run (step fmt l s) = RExit) \<and>
         sent (step fmt l s) = sent s"
proof (cases l)
  case (Stop j)
  then show ?thesis using assms call_step_frame [of j s] by (simp add: step_def)
next
  case (Run c)
  then show ?thesis using assms by (auto simp: step_def run_step_def)
qed (use assms in \<open>auto simp: step_def tick_step_def recv_step_def split: list.splits\<close>)

lemma closing_stable_exec:
  "run s = RCloseCh \<or> run s = RExit \<Longrightarrow> sent (exec fmt ls s) = sent s"
proof (induction ls arbitrary: s)
  case Nil
  then show ?case by simp
next
  case (Cons l ls)
  from closing_stable [OF Cons.prems, of fmt l] Cons.IH [of "step fmt l s"]
  show ?case by simp
qed

lemma stuck_final:
  assumes "inv fmt s" "\<And>l. l \<noteq> Recv \<Longrightarrow> step fmt l s = s"
  shows "run s = RExit \<and> ch_closed s \<and> timer s = Fired \<and>
         (\<forall>i < length (calls s). calls s ! i = Returned)"
proof -
  let ?ev = "expired_event fmt (interval s)"
  from assms(1) have np: "\<not> panicked s"
    and ro: "run_ok ?ev (run s) (timer s) (sent s) (ch_closed s) (done_closed s)"
    and len: "length (ch s) + length (delivered s) \<le> length (sent s)"
    by (simp_all add: inv_def)
  note q = assms(2)
  have lk: "lock s = None"
  proof (rule ccontr)
    assume "lock s \<noteq> None"
    then obtain p where p: "lock s = Some p" by auto
    from assms(1) have l: "lock_ok (lock s) (pcs (run s) (calls s))" by (simp add: inv_def)
    from lock_okD2 [OF l p] have c: "crit (pcs (run s) (calls s) p)" .
    show False
    proof (cases p)
      case RunP
      with c obtain pc where r: "run s = RStop pc" "pc \<noteq> SLock"
        by (cases "run s") (auto simp: crit_def rpc_def)
      from run_stop_enabled [OF assms(1) r(1), of CaseTimer] r(2)
      have "run (run_step fmt CaseTimer s) \<noteq> run s" by simp
      then have "step fmt (Run CaseTimer) s \<noteq> s" using np by (auto simp: step_def)
      with q [of "Run CaseTimer"] show False by simp
    next
      case (StopP i)
      with c have i: "i < length (calls s)" by (auto simp: crit_def split: if_splits)
      with c StopP obtain pc where k: "calls s ! i = InStop pc" "pc \<noteq> SLock"
        by (cases "calls s ! i") (auto simp: crit_def cpc_def)
      from call_stop_enabled [OF assms(1) i k(1)] k(2)
      have "calls (call_step i s) ! i \<noteq> calls s ! i" by simp
      then have "step fmt (Stop i) s \<noteq> s" using np by (auto simp: step_def)
      with q [of "Stop i"] show False by simp
    qed
  qed
  have tick: "tick_step s = s" using q [of Tick] np by (simp add: step_def)
  then have t: "timer s \<noteq> Running"
    by (auto simp: tick_step_def split: if_splits dest: arg_cong [where f = timer])
  have rs: "\<And>c. run_step fmt c s = s" using q [of "Run _"] np by (simp add: step_def)
  have r: "run s = RExit"
  proof (cases "run s")
    case RStart
    with rs [of CaseTimer] show ?thesis by (auto simp: run_step_def dest: arg_cong [where f = run])
  next
    case RSelect
    with ro t have "timer s = Fired" by (cases "timer s") (simp_all add: run_ok_def)
    with RSelect rs [of CaseTimer] show ?thesis
      by (auto simp: run_step_def dest: arg_cong [where f = run])
  next
    case RSend
    with ro len have "ch s = []" "\<not> ch_closed s" by (simp_all add: run_ok_def)
    with RSend rs [of CaseTimer] show ?thesis
      by (auto simp: run_step_def ch_cap_def dest: arg_cong [where f = run])
  next
    case (RStop pc)
    from run_stop_enabled [OF assms(1) RStop, of CaseTimer] lk rs [of CaseTimer]
    show ?thesis by simp
  next
    case RCloseCh
    with ro have "\<not> ch_closed s" by (simp add: run_ok_def)
    with RCloseCh rs [of CaseTimer] show ?thesis
      by (auto simp: run_step_def dest: arg_cong [where f = run])
  next
    case RExit
    then show ?thesis .
  qed
  with ro have cc: "ch_closed s" and tn: "timer s \<noteq> NotStarted" by (simp_all add: run_ok_def)
  from t tn have tf: "timer s = Fired" by (cases "timer s") simp_all
  have "\<forall>i < length (calls s). calls s ! i = Returned"
  proof (intro allI impI)
    fix i assume i: "i < length (calls s)"
    have cs: "call_step i s = s" using q [of "Stop i"] np by (simp add: step_def)
    show "calls s ! i = Returned"
    proof (cases "calls s ! i")
      case Idle
      with cs i have "(calls s)[i := InStop SLock] = calls s"
        by (auto simp: call_step_def dest: arg_cong [where f = calls])
      then have "(calls s)[i := InStop SLock] ! i = calls s ! i" by simp
      with i Idle show ?thesis by simp
    next
      case (InStop pc)
      from call_stop_enabled [OF assms(1) i InStop] lk cs show ?thesis by simp
    next
      case Drain
      show ?thesis
      proof (cases "ch s")
        case Nil
        with Drain cs i cc have "(calls s)[i := Returned] = calls s"
          by (auto simp: call_step_def dest: arg_cong [where f = calls])
        then have "(calls s)[i := Returned] ! i = calls s ! i" by simp
        with i Drain show ?thesis by simp
      next
        case (Cons e es)
        with Drain cs i have "ch (s\<lparr>ch := es\<rparr>) = ch s"
          by (simp add: call_step_def)
        with Cons show ?thesis by simp
      qed
    next
      case Returned
      then show ?thesis .
    qed
  qed
  with r cc tf show ?thesis by simp
qed

lemma quiescent_final:
  assumes "inv fmt s" "quiescent fmt s"
  shows "run s = RExit \<and> ch_closed s \<and> ch s = [] \<and> timer s = Fired \<and>
         (\<forall>i < length (calls s). calls s ! i = Returned)"
proof -
  from assms(1) have np: "\<not> panicked s" by (simp add: inv_def)
  from assms(2) have q: "\<And>l. step fmt l s = s" by (simp add: quiescent_def)
  have "recv_step s = s" using q [of Recv] np by (simp add: step_def)
  then have e: "ch s = []"
    by (cases "ch s") (auto simp: recv_step_def dest: arg_cong [where f = ch])
  from stuck_final [OF assms(1)] q e show ?thesis by simp
qed

lemma run_alone_enabled:
  assumes "inv fmt s" "calls s = []" "run s \<noteq> RExit" "timer s = Fired \<or> run s \<noteq> RSelect"
  shows "run (run_step fmt CaseTimer s) \<noteq> run s"
proof -
  let ?ev = "expired_event fmt (interval s)"
  from assms(1) have ro: "run_ok ?ev (run s) (timer s) (sent s) (ch_closed s) (done_closed s)"
    and len: "length (ch s) + length (delivered s) \<le> length (sent s)"
    and l: "lock_ok (lock s) (pcs (run s) (calls s))"
    by (simp_all add: inv_def)
  show ?thesis
  proof (cases "run s")
    case RStart
    then show ?thesis by (simp add: run_step_def)
  next
    case RSelect
    with assms(4) show ?thesis by (simp add: run_step_def)
  next
    case RSend
    with ro len have "ch s = []" "\<not> ch_closed s" by (simp_all add: run_ok_def)
    with RSend show ?thesis by (simp add: run_step_def ch_cap_def)
  next
    case (RStop pc)
    have "pc = SLock \<longrightarrow> lock s = None"
    proof
      assume pc: "pc = SLock"
      show "lock s = None"
      proof (rule ccontr)
        assume "lock s \<noteq> None"
        then obtain p where p: "lock s = Some p" by auto
        from lock_okD2 [OF l p] have "crit (pcs (run s) (calls s) p)" .
        then show False using RStop pc assms(2) by (cases p) (simp_all add: crit_def rpc_def)
      qed
    qed
    from run_stop_enabled [OF assms(1) RStop this] show ?thesis .
  next
    case RCloseCh
    with ro have "\<not> ch_closed s" by (simp add: run_ok_def)
    with RCloseCh show ?thesis by (simp add: run_step_def)
  next
    case RExit
    with assms(3) show ?thesis by simp
  qed
qed

lemma unread_step:
  assumes "calls s = []" "l \<noteq> Recv" "ch s = sent s"
  shows "ch (step fmt l s) = sent (step fmt l s) \<and> calls (step fmt l s) = []"
proof (cases l)
  case (Run c)
  show ?thesis
  proof (cases "run s = RSend")
    case True
    then show ?thesis using Run assms by (simp add: step_def run_step_def)
  next
    case False
    from run_step_sent [OF False, of fmt c] run_step_calls [of fmt c s]
    show ?thesis using Run assms by (simp add: step_def)
  qed
qed (use assms in \<open>simp_all add: step_def tick_step_def call_step_def\<close>)

lemma unread_exec:
  "calls s = [] \<Longrightarrow> Recv \<notin> set ls \<Longrightarrow> ch s = sent s \<Longrightarrow>
   ch (exec fmt ls s) = sent (exec fmt ls s)"
proof (induction ls arbitrary: s)
  case Nil
  then show ?case by simp
next
  case (Cons l ls)
  from Cons.prems have "l \<noteq> Recv" by auto
  from unread_step [OF Cons.prems(1) this Cons.prems(3), of fmt] Cons.prems(2)
    Cons.IH [of "step fmt l s"]
  show ?case by simp
qed

lemma rank_session: "rank (session n l i r) = 11 + 7 * n"
  by (induction n) (simp_all add: rank_def session_def new_session_def)

lemmas exec_simps =
  session_def new_session_def step_def run_step_def call_step_def tick_step_def recv_step_def
  expired_event_def ch_cap_def

section \<open>The watch session\<close>



text \<open>
  C2. A session with \<open>n\<close> callers of \<^verbatim>\<open>Stop()\<close>, under every schedule (so also
  when calls run at the same time as each other and as the expiry of the timer):
  nothing panics; \<^verbatim>\<open>w.ch\<close> and \<^verbatim>\<open>w.done\<close> are each closed at most once; at most
  one goroutine is between \<^verbatim>\<open>Lock()\<close> and \<^verbatim>\<open>Unlock()\<close>; the whole system takes at
  most \<open>11 + 7 n\<close> steps; and when nothing can move any more, the event channel has
  been closed exactly once, \<^verbatim>\<open>w.done\<close> exactly once, and every call has returned.
\<close>

theorem closed_once_and_every_Stop_returns:
  assumes "s = exec fmt ls (session n l i r)"
  shows "\<not> panicked s \<and>
     ch_closes s \<le> 1 \<and> done_closes s \<le> 1 \<and>
     (ch_closes s = 1) = ch_closed s \<and> (done_closes s = 1) = done_closed s \<and>
     (\<forall>p q. crit (pcs (run s) (calls s) p) \<and> crit (pcs (run s) (calls s) q) \<longrightarrow> p = q) \<and>
     effective fmt ls (session n l i r) \<le> 11 + 7 * n \<and>
     (quiescent fmt s \<longrightarrow>
        ch_closes s = 1 \<and> done_closes s = 1 \<and> (\<forall>j < n. calls s ! j = Returned))"
proof -
  have i: "inv fmt s" unfolding assms by (rule inv_reach)
  have len: "length (calls s) = n"
    unfolding assms by (simp add: exec_length session_def new_session_def)
  from i have np: "\<not> panicked s"
    and l: "lock_ok (lock s) (pcs (run s) (calls s))"
    and dc: "done_closes s = (if done_closed s then 1 else 0)"
    and cc: "ch_closes s = (if ch_closed s then 1 else 0)"
    by (simp_all add: inv_def)
  have mx: "\<forall>p q. crit (pcs (run s) (calls s) p) \<and> crit (pcs (run s) (calls s) q) \<longrightarrow> p = q"
    using lock_okD1 [OF l] by (metis option.inject)
  from effective_rank [OF inv_session, of fmt ls n l i r]
  have e: "effective fmt ls (session n l i r) \<le> 11 + 7 * n" by (simp add: rank_session)
  have q: "quiescent fmt s \<longrightarrow>
      ch_closes s = 1 \<and> done_closes s = 1 \<and> (\<forall>j < n. calls s ! j = Returned)"
  proof
    assume "quiescent fmt s"
    from quiescent_final [OF i this] exit_done [OF i] len cc dc
    show "ch_closes s = 1 \<and> done_closes s = 1 \<and> (\<forall>j < n. calls s ! j = Returned)" by simp
  qed
  from np dc cc mx e q show ?thesis by simp
qed

theorem closed_once_and_every_Stop_returns_witness:
  "quiescent (\<lambda>d. ''50ms'')
     (exec (\<lambda>d. ''50ms'')
        [Run CaseTimer, Stop 0, Stop 1, Stop 0, Tick, Run CaseTimer, Run CaseTimer,
         Run CaseTimer, Stop 0, Stop 0, Stop 0, Stop 0, Stop 1, Run CaseTimer, Stop 1, Stop 1,
         Run CaseTimer, Run CaseTimer, Run CaseTimer, Stop 0, Run CaseTimer, Stop 0, Stop 1]
        (session 2 \<lparr>client = (), interval = 50000000\<rparr> 50000000 ())) \<and>
   ch_closes (exec (\<lambda>d. ''50ms'')
        [Run CaseTimer, Stop 0, Stop 1, Stop 0, Tick, Run CaseTimer, Run CaseTimer,
         Run CaseTimer, Stop 0, Stop 0, Stop 0, Stop 0, Stop 1, Run CaseTimer, Stop 1, Stop 1,
         Run CaseTimer, Run CaseTimer, Run CaseTimer, Stop 0, Run CaseTimer, Stop 0, Stop 1]
        (session 2 \<lparr>client = (), interval = 50000000\<rparr> 50000000 ())) = 1 \<and>
   done_closes (exec (\<lambda>d. ''50ms'')
        [Run CaseTimer, Stop 0, Stop 1, Stop 0, Tick, Run CaseTimer, Run CaseTimer,
         Run CaseTimer, Stop 0, Stop 0, Stop 0, Stop 0, Stop 1, Run CaseTimer, Stop 1, Stop 1,
         Run CaseTimer, Run CaseTimer, Run CaseTimer, Stop 0, Run CaseTimer, Stop 0, Stop 1]
        (session 2 \<lparr>client = (), interval = 50000000\<rparr> 50000000 ())) = 1 \<and>
   calls (exec (\<lambda>d. ''50ms'')
        [Run CaseTimer, Stop 0, Stop 1, Stop 0, Tick, Run CaseTimer, Run CaseTimer,
         Run CaseTimer, Stop 0, Stop 0, Stop 0, Stop 0, Stop 1, Run CaseTimer, Stop 1, Stop 1,
         Run CaseTimer, Run CaseTimer, Run CaseTimer, Stop 0, Run CaseTimer, Stop 0, Stop 1]
        (session 2 \<lparr>client = (), interval = 50000000\<rparr> 50000000 ())) = [Returned, Returned]"
proof -
  let ?f = "\<lambda>d::int. ''50ms''"
  let ?ls = "[Run CaseTimer, Stop 0, Stop 1, Stop 0, Tick, Run CaseTimer, Run CaseTimer,
         Run CaseTimer, Stop 0, Stop 0, Stop 0, Stop 0, Stop 1, Run CaseTimer, Stop 1, Stop 1,
         Run CaseTimer, Run CaseTimer, Run CaseTimer, Stop 0, Run CaseTimer, Stop 0, Stop 1]"
  let ?s0 = "session 2 \<lparr>client = (), interval = 50000000\<rparr> 50000000 ()"
  have c: "calls (exec ?f ?ls ?s0) = [Returned, Returned]"
    by (simp add: exec_simps numeral_2_eq_2)
  have q: "quiescent ?f (exec ?f ?ls ?s0)"
    unfolding quiescent_def
  proof
    fix l show "step ?f l (exec ?f ?ls ?s0) = exec ?f ?ls ?s0"
    proof (cases l)
      case (Stop j)
      then show ?thesis
        by (cases "j = 0"; cases "j = 1") (simp_all add: exec_simps numeral_2_eq_2)
    qed (simp_all add: exec_simps numeral_2_eq_2)
  qed
  show ?thesis
    using closed_once_and_every_Stop_returns [of "exec ?f ?ls ?s0" ?f ?ls 2
        "\<lparr>client = (), interval = 50000000\<rparr>" 50000000 "()"] q c
    by simp
qed

text \<open>
  C3 as the claim states it fails, on two schedules of a session with one caller.
  In the first, \<^verbatim>\<open>Stop()\<close> is called while the timer runs, and the timer fires
  before the call has closed \<^verbatim>\<open>w.done\<close>: the \<^verbatim>\<open>select\<close> takes the timer case
  and the expiry event is sent. In the second the call has even closed
  \<^verbatim>\<open>w.done\<close> while the timer runs, and the timer fires before \<^verbatim>\<open>run()\<close> reaches
  its \<^verbatim>\<open>select\<close>: both cases are ready, Go may choose the timer case, and the
  expiry event is sent, and a reader that receives before the loop of
  \<^verbatim>\<open>Stop()\<close> does, gets it.
\<close>

theorem Stop_before_expiry_counterexample:
  "calls (exec (\<lambda>d. ''50ms'') [Run CaseTimer, Stop 0]
        (session 1 \<lparr>client = (), interval = 50000000\<rparr> 50000000 ())) ! 0 = InStop SLock \<and>
   timer (exec (\<lambda>d. ''50ms'') [Run CaseTimer, Stop 0]
        (session 1 \<lparr>client = (), interval = 50000000\<rparr> 50000000 ())) = Running \<and>
   sent (exec (\<lambda>d. ''50ms'') [Run CaseTimer, Stop 0, Tick, Run CaseTimer, Run CaseTimer]
        (session 1 \<lparr>client = (), interval = 50000000\<rparr> 50000000 ())) =
     [\<lparr>Type = Error,
       Object = NewResourceExpired ''watch closed after 50ms, resync required''\<rparr>] \<and>
   calls (exec (\<lambda>d. ''50ms'') [Run CaseTimer, Stop 0, Stop 0, Stop 0, Stop 0]
        (session 1 \<lparr>client = (), interval = 50000000\<rparr> 50000000 ())) ! 0 = InStop SSetClosed \<and>
   done_closed (exec (\<lambda>d. ''50ms'') [Run CaseTimer, Stop 0, Stop 0, Stop 0, Stop 0]
        (session 1 \<lparr>client = (), interval = 50000000\<rparr> 50000000 ())) \<and>
   timer (exec (\<lambda>d. ''50ms'') [Run CaseTimer, Stop 0, Stop 0, Stop 0, Stop 0]
        (session 1 \<lparr>client = (), interval = 50000000\<rparr> 50000000 ())) = Running \<and>
   sent (exec (\<lambda>d. ''50ms'')
        [Run CaseTimer, Stop 0, Stop 0, Stop 0, Stop 0, Tick, Run CaseTimer, Run CaseTimer]
        (session 1 \<lparr>client = (), interval = 50000000\<rparr> 50000000 ())) =
     [\<lparr>Type = Error,
       Object = NewResourceExpired ''watch closed after 50ms, resync required''\<rparr>] \<and>
   delivered (exec (\<lambda>d. ''50ms'')
        [Run CaseTimer, Stop 0, Stop 0, Stop 0, Stop 0, Tick, Run CaseTimer, Run CaseTimer, Recv]
        (session 1 \<lparr>client = (), interval = 50000000\<rparr> 50000000 ())) =
     [\<lparr>Type = Error,
       Object = NewResourceExpired ''watch closed after 50ms, resync required''\<rparr>]"
  by (simp add: exec_simps)

text \<open>
  C3, as the code has it. In a session with \<open>n\<close> callers, under every schedule:
  while the timer has not fired the \<^verbatim>\<open>select\<close> cannot take the timer case; when
  \<^verbatim>\<open>w.done\<close> is closed and the \<^verbatim>\<open>select\<close> takes that case, \<^verbatim>\<open>run()\<close> goes
  straight to closing the channel and no event is sent then or ever after; an
  event is only ever sent after the timer has fired, and at most one; once a call
  of \<^verbatim>\<open>Stop()\<close> has returned, the channel is closed and empty, and no reader gets
  an event and nothing is sent from then on; and when nothing can move any more
  the channel is closed.
\<close>

theorem stop_case_sends_nothing:
  assumes "s = exec fmt ls (session n l i r)"
  shows "(run s = RSelect \<and> timer s \<noteq> Fired \<longrightarrow> step fmt (Run CaseTimer) s = s) \<and>
     (run s = RSelect \<and> done_closed s \<longrightarrow>
        run (step fmt (Run CaseDone) s) = RCloseCh \<and>
        sent (exec fmt (Run CaseDone # ls') s) = []) \<and>
     (sent s \<noteq> [] \<longrightarrow> timer s = Fired) \<and>
     length (sent s) \<le> 1 \<and>
     ((\<exists>j < n. calls s ! j = Returned) \<longrightarrow>
        ch_closed s \<and> ch s = [] \<and>
        delivered (exec fmt ls' s) = delivered s \<and> sent (exec fmt ls' s) = sent s) \<and>
     (quiescent fmt s \<longrightarrow> ch_closed s)"
proof -
  have i: "inv fmt s" unfolding assms by (rule inv_reach)
  have len: "length (calls s) = n"
    unfolding assms by (simp add: exec_length session_def new_session_def)
  from i have np: "\<not> panicked s"
    and ro: "run_ok (expired_event fmt (interval s)) (run s) (timer s) (sent s)
        (ch_closed s) (done_closed s)"
    and co: "\<forall>k \<in> set (calls s). call_ok (closed s) (run s) (ch s) k"
    by (simp_all add: inv_def)
  have a: "run s = RSelect \<and> timer s \<noteq> Fired \<longrightarrow> step fmt (Run CaseTimer) s = s"
    using np by (simp add: step_def run_step_def)
  have b: "run s = RSelect \<and> done_closed s \<longrightarrow>
        run (step fmt (Run CaseDone) s) = RCloseCh \<and>
        sent (exec fmt (Run CaseDone # ls') s) = []"
  proof
    assume h: "run s = RSelect \<and> done_closed s"
    with np have st: "step fmt (Run CaseDone) s = s\<lparr>run := RCloseCh\<rparr>"
      by (simp add: step_def run_step_def)
    from h ro have "sent s = []" by (simp add: run_ok_def)
    with closing_stable_exec [of "s\<lparr>run := RCloseCh\<rparr>" fmt ls'] st
    show "run (step fmt (Run CaseDone) s) = RCloseCh \<and>
        sent (exec fmt (Run CaseDone # ls') s) = []" by simp
  qed
  from sent_cases [OF i]
  have c: "(sent s \<noteq> [] \<longrightarrow> timer s = Fired) \<and> length (sent s) \<le> 1" by auto
  have d: "(\<exists>j < n. calls s ! j = Returned) \<longrightarrow>
        ch_closed s \<and> ch s = [] \<and>
        delivered (exec fmt ls' s) = delivered s \<and> sent (exec fmt ls' s) = sent s"
  proof
    assume "\<exists>j < n. calls s ! j = Returned"
    then obtain j where j: "j < length (calls s)" "calls s ! j = Returned" using len by auto
    with co have "call_ok (closed s) (run s) (ch s) Returned" by (metis nth_mem)
    then have r: "run s = RExit" "ch s = []" by (simp_all add: call_ok_def)
    with closed_iff_exit [OF i] exited_stable_exec [OF r, of fmt ls']
    show "ch_closed s \<and> ch s = [] \<and>
        delivered (exec fmt ls' s) = delivered s \<and> sent (exec fmt ls' s) = sent s" by simp
  qed
  have e: "quiescent fmt s \<longrightarrow> ch_closed s" using quiescent_final [OF i] by simp
  from a b c d e show ?thesis by blast
qed

theorem stop_case_sends_nothing_witness:
  "run (exec (\<lambda>d. ''50ms'') [Run CaseTimer, Stop 0, Stop 0, Stop 0, Stop 0]
        (session 1 \<lparr>client = (), interval = 50000000\<rparr> 50000000 ())) = RSelect \<and>
   done_closed (exec (\<lambda>d. ''50ms'') [Run CaseTimer, Stop 0, Stop 0, Stop 0, Stop 0]
        (session 1 \<lparr>client = (), interval = 50000000\<rparr> 50000000 ())) \<and>
   timer (exec (\<lambda>d. ''50ms'') [Run CaseTimer, Stop 0, Stop 0, Stop 0, Stop 0]
        (session 1 \<lparr>client = (), interval = 50000000\<rparr> 50000000 ())) \<noteq> Fired \<and>
   step (\<lambda>d. ''50ms'') (Run CaseTimer)
      (exec (\<lambda>d. ''50ms'') [Run CaseTimer, Stop 0, Stop 0, Stop 0, Stop 0]
        (session 1 \<lparr>client = (), interval = 50000000\<rparr> 50000000 ())) =
     exec (\<lambda>d. ''50ms'') [Run CaseTimer, Stop 0, Stop 0, Stop 0, Stop 0]
        (session 1 \<lparr>client = (), interval = 50000000\<rparr> 50000000 ()) \<and>
   sent (exec (\<lambda>d. ''50ms'') [Run CaseDone, Tick, Run CaseTimer, Stop 0, Stop 0, Run CaseTimer, Stop 0, Recv]
      (exec (\<lambda>d. ''50ms'') [Run CaseTimer, Stop 0, Stop 0, Stop 0, Stop 0]
        (session 1 \<lparr>client = (), interval = 50000000\<rparr> 50000000 ()))) = [] \<and>
   calls (exec (\<lambda>d. ''50ms'')
        [Run CaseTimer, Stop 0, Stop 0, Stop 0, Stop 0, Run CaseDone, Tick, Run CaseTimer,
         Stop 0, Stop 0, Run CaseTimer, Stop 0]
        (session 1 \<lparr>client = (), interval = 50000000\<rparr> 50000000 ())) ! 0 = Returned \<and>
   ch_closed (exec (\<lambda>d. ''50ms'')
        [Run CaseTimer, Stop 0, Stop 0, Stop 0, Stop 0, Run CaseDone, Tick, Run CaseTimer,
         Stop 0, Stop 0, Run CaseTimer, Stop 0]
        (session 1 \<lparr>client = (), interval = 50000000\<rparr> 50000000 ())) \<and>
   delivered (exec (\<lambda>d. ''50ms'') [Recv, Run CaseTimer, Recv]
      (exec (\<lambda>d. ''50ms'')
        [Run CaseTimer, Stop 0, Stop 0, Stop 0, Stop 0, Run CaseDone, Tick, Run CaseTimer,
         Stop 0, Stop 0, Run CaseTimer, Stop 0]
        (session 1 \<lparr>client = (), interval = 50000000\<rparr> 50000000 ()))) = []"
proof -
  let ?f = "\<lambda>d::int. ''50ms''"
  let ?l1 = "[Run CaseTimer, Stop 0, Stop 0, Stop 0, Stop 0]"
  let ?l2 = "[Run CaseTimer, Stop 0, Stop 0, Stop 0, Stop 0, Run CaseDone, Tick, Run CaseTimer,
         Stop 0, Stop 0, Run CaseTimer, Stop 0]"
  let ?s0 = "session 1 \<lparr>client = (), interval = 50000000\<rparr> 50000000 ()"
  have a: "run (exec ?f ?l1 ?s0) = RSelect" "done_closed (exec ?f ?l1 ?s0)"
    "timer (exec ?f ?l1 ?s0) \<noteq> Fired"
    by (simp_all add: exec_simps)
  have b: "calls (exec ?f ?l2 ?s0) ! 0 = Returned" "delivered (exec ?f ?l2 ?s0) = []"
    by (simp_all add: exec_simps)
  show ?thesis
    using stop_case_sends_nothing [of "exec ?f ?l1 ?s0" ?f ?l1 1
        "\<lparr>client = (), interval = 50000000\<rparr>" 50000000 "()"
        "[Tick, Run CaseTimer, Stop 0, Stop 0, Run CaseTimer, Stop 0, Recv]"]
      stop_case_sends_nothing [of "exec ?f ?l2 ?s0" ?f ?l2 1
        "\<lparr>client = (), interval = 50000000\<rparr>" 50000000 "()" "[Recv, Run CaseTimer, Recv]"]
      a b
    by auto
qed

text \<open>
  C4. In a session with \<open>n\<close> callers, for the \<open>j\<close>-th call of \<^verbatim>\<open>Stop()\<close> under
  every schedule: when the call is in its draining loop or has returned,
  \<^verbatim>\<open>w.done\<close> is closed and \<^verbatim>\<open>w.closed\<close> is set; in the loop the call takes the
  oldest event off the channel and drops it, and leaves the loop only when the
  channel is empty and closed; so when it has returned the channel is closed and
  empty and \<^verbatim>\<open>run()\<close> has exited. The send of \<^verbatim>\<open>run()\<close> finds the channel empty
  and open, so it is never blocked, and so is its close of the channel.
\<close>

theorem Stop_drains_until_closed:
  assumes "s = exec fmt ls (session n l i r)" "j < n"
  shows "(calls s ! j = Drain \<or> calls s ! j = Returned \<longrightarrow> closed s \<and> done_closed s) \<and>
     (calls s ! j = Drain \<longrightarrow>
        (case ch s of
           e # es \<Rightarrow> step fmt (Stop j) s = s\<lparr>ch := es\<rparr>
         | [] \<Rightarrow> step fmt (Stop j) s =
                  (if ch_closed s then s\<lparr>calls := (calls s)[j := Returned]\<rparr> else s))) \<and>
     (calls s ! j = Returned \<longrightarrow> ch_closed s \<and> ch s = [] \<and> run s = RExit) \<and>
     (run s = RSend \<longrightarrow>
        ch s = [] \<and> \<not> ch_closed s \<and> run (step fmt (Run c) s) = RStop SLock) \<and>
     (run s = RCloseCh \<longrightarrow>
        run (step fmt (Run c) s) = RExit \<and> ch_closed (step fmt (Run c) s))"
proof -
  have i: "inv fmt s" unfolding assms by (rule inv_reach)
  have len: "length (calls s) = n"
    unfolding assms by (simp add: exec_length session_def new_session_def)
  with assms(2) have j: "j < length (calls s)" by simp
  from i have np: "\<not> panicked s"
    and fl: "flags_ok (hp (lock s) (pcs (run s) (calls s))) (done_closed s) (closed s)"
    and ro: "run_ok (expired_event fmt (interval s)) (run s) (timer s) (sent s)
        (ch_closed s) (done_closed s)"
    and co: "\<forall>k \<in> set (calls s). call_ok (closed s) (run s) (ch s) k"
    and ln: "length (ch s) + length (delivered s) \<le> length (sent s)"
    by (simp_all add: inv_def)
  from co j have cj: "call_ok (closed s) (run s) (ch s) (calls s ! j)" by simp
  have a: "calls s ! j = Drain \<or> calls s ! j = Returned \<longrightarrow> closed s \<and> done_closed s"
    using cj flags_closed [OF fl] by (auto simp: call_ok_def)
  have b: "calls s ! j = Drain \<longrightarrow>
        (case ch s of
           e # es \<Rightarrow> step fmt (Stop j) s = s\<lparr>ch := es\<rparr>
         | [] \<Rightarrow> step fmt (Stop j) s =
                  (if ch_closed s then s\<lparr>calls := (calls s)[j := Returned]\<rparr> else s))"
    using np j by (simp add: step_def call_step_def split: list.splits)
  have c: "calls s ! j = Returned \<longrightarrow> ch_closed s \<and> ch s = [] \<and> run s = RExit"
    using cj closed_iff_exit [OF i] by (auto simp: call_ok_def)
  have d: "run s = RSend \<longrightarrow>
        ch s = [] \<and> \<not> ch_closed s \<and> run (step fmt (Run c) s) = RStop SLock"
    using ro ln np by (auto simp: run_ok_def step_def run_step_def ch_cap_def)
  have e: "run s = RCloseCh \<longrightarrow>
        run (step fmt (Run c) s) = RExit \<and> ch_closed (step fmt (Run c) s)"
    using ro np by (auto simp: run_ok_def step_def run_step_def)
  from a b c d e show ?thesis by blast
qed

theorem Stop_drains_until_closed_witness:
  "calls (exec (\<lambda>d. ''50ms'')
        [Run CaseTimer, Tick, Run CaseTimer, Run CaseTimer, Stop 0, Stop 0, Stop 0, Stop 0,
         Stop 0, Stop 0]
        (session 1 \<lparr>client = (), interval = 50000000\<rparr> 50000000 ())) ! 0 = Drain \<and>
   ch (exec (\<lambda>d. ''50ms'')
        [Run CaseTimer, Tick, Run CaseTimer, Run CaseTimer, Stop 0, Stop 0, Stop 0, Stop 0,
         Stop 0, Stop 0, Stop 0]
        (session 1 \<lparr>client = (), interval = 50000000\<rparr> 50000000 ())) = [] \<and>
   calls (exec (\<lambda>d. ''50ms'')
        [Run CaseTimer, Tick, Run CaseTimer, Run CaseTimer, Stop 0, Stop 0, Stop 0, Stop 0,
         Stop 0, Stop 0, Stop 0, Run CaseTimer, Run CaseTimer, Run CaseTimer, Run CaseTimer,
         Stop 0]
        (session 1 \<lparr>client = (), interval = 50000000\<rparr> 50000000 ())) ! 0 = Returned \<and>
   run (exec (\<lambda>d. ''50ms'')
        [Run CaseTimer, Tick, Run CaseTimer, Run CaseTimer, Stop 0, Stop 0, Stop 0, Stop 0,
         Stop 0, Stop 0, Stop 0, Run CaseTimer, Run CaseTimer, Run CaseTimer, Run CaseTimer,
         Stop 0]
        (session 1 \<lparr>client = (), interval = 50000000\<rparr> 50000000 ())) = RExit \<and>
   ch_closed (exec (\<lambda>d. ''50ms'')
        [Run CaseTimer, Tick, Run CaseTimer, Run CaseTimer, Stop 0, Stop 0, Stop 0, Stop 0,
         Stop 0, Stop 0, Stop 0, Run CaseTimer, Run CaseTimer, Run CaseTimer, Run CaseTimer,
         Stop 0]
        (session 1 \<lparr>client = (), interval = 50000000\<rparr> 50000000 ())) \<and>
   done_closed (exec (\<lambda>d. ''50ms'')
        [Run CaseTimer, Tick, Run CaseTimer, Run CaseTimer, Stop 0, Stop 0, Stop 0, Stop 0,
         Stop 0, Stop 0]
        (session 1 \<lparr>client = (), interval = 50000000\<rparr> 50000000 ()))"
proof -
  let ?f = "\<lambda>d::int. ''50ms''"
  let ?l1 = "[Run CaseTimer, Tick, Run CaseTimer, Run CaseTimer, Stop 0, Stop 0, Stop 0, Stop 0,
         Stop 0, Stop 0]"
  let ?l2 = "[Run CaseTimer, Tick, Run CaseTimer, Run CaseTimer, Stop 0, Stop 0, Stop 0, Stop 0,
         Stop 0, Stop 0, Stop 0, Run CaseTimer, Run CaseTimer, Run CaseTimer, Run CaseTimer,
         Stop 0]"
  let ?s0 = "session 1 \<lparr>client = (), interval = 50000000\<rparr> 50000000 ()"
  have a: "calls (exec ?f ?l1 ?s0) ! 0 = Drain" by (simp add: exec_simps)
  have b: "calls (exec ?f ?l2 ?s0) ! 0 = Returned" by (simp add: exec_simps)
  have c: "ch (exec ?f ?l1 ?s0) =
      [\<lparr>Type = Error, Object = NewResourceExpired ''watch closed after 50ms, resync required''\<rparr>]"
    by (simp add: exec_simps)
  have d: "exec ?f (?l1 @ [Stop 0]) ?s0 = step ?f (Stop 0) (exec ?f ?l1 ?s0)"
    by (simp add: exec_simps)
  show ?thesis
    using Stop_drains_until_closed [of "exec ?f ?l1 ?s0" ?f ?l1 1
        "\<lparr>client = (), interval = 50000000\<rparr>" 50000000 "()" 0 CaseTimer]
      Stop_drains_until_closed [of "exec ?f ?l2 ?s0" ?f ?l2 1
        "\<lparr>client = (), interval = 50000000\<rparr>" 50000000 "()" 0 CaseTimer]
      a b c d
    by simp
qed

text \<open>
  C10. A session that is never stopped and whose channel nobody reads, under
  every schedule: the channel has room for 100 events and holds what was sent,
  at most one event, so the send finds room; from the moment the timer has fired
  until it has exited, \<^verbatim>\<open>run()\<close> can always take its next step; it exits with the
  channel closed; the session takes at most 11 steps; and when nothing but a
  reader could move, \<^verbatim>\<open>run()\<close> has exited and the channel is closed.
\<close>

theorem run_terminates_without_reader:
  assumes "s = exec fmt ls (session 0 l i r)" "Recv \<notin> set ls"
  shows "ch_cap = 100 \<and> ch s = sent s \<and> length (sent s) \<le> 1 \<and>
     (run s = RSend \<longrightarrow> length (ch s) < ch_cap \<and> \<not> ch_closed s) \<and>
     (timer s = Fired \<and> run s \<noteq> RExit \<longrightarrow> step fmt (Run CaseTimer) s \<noteq> s) \<and>
     (run s = RExit \<longrightarrow> ch_closed s) \<and>
     effective fmt ls (session 0 l i r) \<le> 11 \<and>
     ((\<forall>l'. l' \<noteq> Recv \<longrightarrow> step fmt l' s = s) \<longrightarrow>
        run s = RExit \<and> ch_closed s \<and> timer s = Fired)"
proof -
  have i: "inv fmt s" unfolding assms by (rule inv_reach)
  have "length (calls s) = 0" unfolding assms by (simp add: exec_length session_def new_session_def)
  then have cs: "calls s = []" by simp
  from i have np: "\<not> panicked s"
    and ro: "run_ok (expired_event fmt (interval s)) (run s) (timer s) (sent s)
        (ch_closed s) (done_closed s)"
    by (simp_all add: inv_def)
  have u: "ch s = sent s"
    unfolding assms using assms(2)
    by (intro unread_exec) (simp_all add: session_def new_session_def)
  from sent_cases [OF i] have s1: "length (sent s) \<le> 1" by auto
  have a: "run s = RSend \<longrightarrow> length (ch s) < ch_cap \<and> \<not> ch_closed s"
    using ro u by (auto simp: run_ok_def ch_cap_def)
  have b: "timer s = Fired \<and> run s \<noteq> RExit \<longrightarrow> step fmt (Run CaseTimer) s \<noteq> s"
  proof
    assume h: "timer s = Fired \<and> run s \<noteq> RExit"
    with run_alone_enabled [OF i cs] have "run (run_step fmt CaseTimer s) \<noteq> run s" by simp
    then show "step fmt (Run CaseTimer) s \<noteq> s" using np by (auto simp: step_def)
  qed
  from effective_rank [OF inv_session, of fmt ls 0 l i r]
  have e: "effective fmt ls (session 0 l i r) \<le> 11" by (simp add: rank_session)
  have q: "(\<forall>l'. l' \<noteq> Recv \<longrightarrow> step fmt l' s = s) \<longrightarrow>
        run s = RExit \<and> ch_closed s \<and> timer s = Fired"
    using stuck_final [OF i] by blast
  from u s1 a b e q closed_iff_exit [OF i] show ?thesis by (simp add: ch_cap_def)
qed

theorem run_terminates_without_reader_witness:
  "run (exec (\<lambda>d. ''50ms'')
        [Run CaseTimer, Tick, Run CaseTimer, Run CaseTimer, Run CaseTimer, Run CaseTimer,
         Run CaseTimer, Run CaseTimer, Run CaseTimer, Run CaseTimer]
        (session 0 \<lparr>client = (), interval = 50000000\<rparr> 50000000 ())) = RExit \<and>
   ch_closed (exec (\<lambda>d. ''50ms'')
        [Run CaseTimer, Tick, Run CaseTimer, Run CaseTimer, Run CaseTimer, Run CaseTimer,
         Run CaseTimer, Run CaseTimer, Run CaseTimer, Run CaseTimer]
        (session 0 \<lparr>client = (), interval = 50000000\<rparr> 50000000 ())) \<and>
   timer (exec (\<lambda>d. ''50ms'')
        [Run CaseTimer, Tick, Run CaseTimer, Run CaseTimer, Run CaseTimer, Run CaseTimer,
         Run CaseTimer, Run CaseTimer, Run CaseTimer, Run CaseTimer]
        (session 0 \<lparr>client = (), interval = 50000000\<rparr> 50000000 ())) = Fired \<and>
   length (ch (exec (\<lambda>d. ''50ms'') [Run CaseTimer, Tick, Run CaseTimer]
        (session 0 \<lparr>client = (), interval = 50000000\<rparr> 50000000 ()))) < ch_cap"
proof -
  let ?f = "\<lambda>d::int. ''50ms''"
  let ?ls = "[Run CaseTimer, Tick, Run CaseTimer, Run CaseTimer, Run CaseTimer, Run CaseTimer,
         Run CaseTimer, Run CaseTimer, Run CaseTimer, Run CaseTimer]"
  let ?l3 = "[Run CaseTimer, Tick, Run CaseTimer]"
  let ?s0 = "session 0 \<lparr>client = (), interval = 50000000\<rparr> 50000000 ()"
  have q: "\<forall>l'. l' \<noteq> Recv \<longrightarrow> step ?f l' (exec ?f ?ls ?s0) = exec ?f ?ls ?s0"
  proof (intro allI impI)
    fix l' :: label assume "l' \<noteq> Recv"
    then show "step ?f l' (exec ?f ?ls ?s0) = exec ?f ?ls ?s0"
      by (cases l') (simp_all add: exec_simps)
  qed
  have n: "Recv \<notin> set ?ls" "Recv \<notin> set ?l3" by simp_all
  have t: "timer (exec ?f ?l3 ?s0) = Fired" "run (exec ?f ?l3 ?s0) = RSend"
    by (simp_all add: exec_simps)
  show ?thesis
    using run_terminates_without_reader [of "exec ?f ?ls ?s0" ?f ?ls
        "\<lparr>client = (), interval = 50000000\<rparr>" 50000000 "()"]
      run_terminates_without_reader [of "exec ?f ?l3 ?s0" ?f ?l3
        "\<lparr>client = (), interval = 50000000\<rparr>" 50000000 "()"]
      q n t
    by simp
qed

end
